theory Spec2Isabelle
  imports Complex_Main "HOL-Library.Multiset"
begin

section \<open>Java values: boxed integers and exceptions\<close>

text \<open>
  The Java sources pass node ids and labels as \<^verbatim>\<open>java.lang.Integer\<close> objects and
  compare them in several places with \<^verbatim>\<open>==\<close> and \<^verbatim>\<open>!=\<close>, which on two
  \<^verbatim>\<open>Integer\<close> operands is a comparison of object identity. An \<^verbatim>\<open>Integer\<close> is
  therefore modelled with its identity: boxing (\<^verbatim>\<open>Integer.valueOf\<close>, which the
  compiler inserts wherever an \<^verbatim>\<open>int\<close> is passed as an \<^verbatim>\<open>Integer\<close>) returns the
  shared cached object for values in \<open>-128..127\<close> (the cache of a default JVM) and
  allocates a new object otherwise. The allocation counter is passed explicitly.
\<close>

datatype Integer = Cached int | Boxed nat int

fun intValue :: "Integer \<Rightarrow> int" where
  "intValue (Cached i) = i"
| "intValue (Boxed a i) = i"

definition valueOf :: "nat \<Rightarrow> int \<Rightarrow> Integer \<times> nat" where
  "valueOf h i = (if -128 \<le> i \<and> i \<le> 127 then (Cached i, h) else (Boxed h i, Suc h))"

text \<open>Boxing the elements of a list one after the other.\<close>

fun box_all :: "nat \<Rightarrow> int list \<Rightarrow> Integer list \<times> nat" where
  "box_all h [] = ([], h)"
| "box_all h (i # is) =
     (case valueOf h i of (b, h') \<Rightarrow>
        (case box_all h' is of (bs, h'') \<Rightarrow> (b # bs, h'')))"

text \<open>32-bit wrap-around of \<^verbatim>\<open>int\<close> arithmetic.\<close>

definition i32 :: "int \<Rightarrow> int" where
  "i32 x = (x + 2147483648) mod 4294967296 - 2147483648"

datatype exn =
    NullPointerException
  | ArrayIndexOutOfBoundsException
  | IndexOutOfBoundsException
  | NegativeArraySizeException

definition ebind :: "exn + 'a \<Rightarrow> ('a \<Rightarrow> exn + 'b) \<Rightarrow> exn + 'b" where
  "ebind m f = (case m of Inl e \<Rightarrow> Inl e | Inr x \<Rightarrow> f x)"

text \<open>Reading and writing a Java array at an \<^verbatim>\<open>int\<close> index.\<close>

definition aget :: "'a list \<Rightarrow> int \<Rightarrow> exn + 'a" where
  "aget arr i = (if 0 \<le> i \<and> i < int (length arr) then Inr (arr ! nat i)
                 else Inl ArrayIndexOutOfBoundsException)"

definition aset :: "'a list \<Rightarrow> int \<Rightarrow> 'a \<Rightarrow> exn + 'a list" where
  "aset arr i v = (if 0 \<le> i \<and> i < int (length arr) then Inr (arr[nat i := v])
                   else Inl ArrayIndexOutOfBoundsException)"

section \<open>Graph.java\<close>

text \<open>
  The fields of \<^verbatim>\<open>Graph\<close>. The four arrays are lists of length \<open>size_cap\<close> whose
  entries are \<open>None\<close> for \<^verbatim>\<open>null\<close>; \<open>nodes\<close> is the \<^verbatim>\<open>BitSet\<close>;
  \<open>edgeSourceSet\<close> holds primitive ints (\<^verbatim>\<open>IntOpenHashSet\<close>), \<open>edgeSources\<close>
  holds the \<^verbatim>\<open>Integer\<close> objects. The weight type \<open>'w\<close> stands for \<^verbatim>\<open>Float\<close>.
  The field \<^verbatim>\<open>initialNumEdgesPerNode\<close> is only a capacity hint for the
  collections and is left out.
\<close>

record 'w Graph =
  size_cap :: int
  nodes :: "int set"
  nodeClasses :: "Integer option list"
  edgeSourceSet :: "int set option list"
  edgeSources :: "Integer list option list"
  edgeWeights :: "'w list option list"

definition new_Graph :: "int \<Rightarrow> exn + 'w Graph" where
  "new_Graph initialSize =
     (if initialSize < 0 then Inl NegativeArraySizeException
      else Inr \<lparr> size_cap = initialSize, nodes = {},
                 nodeClasses = replicate (nat initialSize) None,
                 edgeSourceSet = replicate (nat initialSize) None,
                 edgeSources = replicate (nat initialSize) None,
                 edgeWeights = replicate (nat initialSize) None \<rparr>)"

definition copyOf :: "'a option list \<Rightarrow> int \<Rightarrow> 'a option list" where
  "copyOf arr newSize = take (nat newSize) arr @ replicate (nat newSize - length arr) None"

definition ensureCapacity :: "'w Graph \<Rightarrow> int \<Rightarrow> 'w Graph" where
  "ensureCapacity g minSize =
     (if minSize > size_cap g then
        (let newSize = max minSize (i32 (size_cap g * 2)) in
         g\<lparr> nodeClasses := copyOf (nodeClasses g) newSize,
            edgeSourceSet := copyOf (edgeSourceSet g) newSize,
            edgeSources := copyOf (edgeSources g) newSize,
            edgeWeights := copyOf (edgeWeights g) newSize,
            size_cap := newSize \<rparr>)
      else g)"

text \<open>\<^verbatim>\<open>addNode(Integer node)\<close>; \<^verbatim>\<open>BitSet.get\<close> and \<^verbatim>\<open>BitSet.set\<close> throw on a negative index.\<close>

definition addNode :: "'w Graph \<Rightarrow> Integer \<Rightarrow> exn + 'w Graph" where
  "addNode g0 node =
     (let n = intValue node; g = ensureCapacity g0 (i32 (n + 1)) in
      if n < 0 then Inl IndexOutOfBoundsException
      else if n \<notin> nodes g then
        ebind (aset (edgeSourceSet g) n (Some {})) (\<lambda>ess.
        ebind (aset (edgeSources g) n (Some [])) (\<lambda>es.
        ebind (aset (edgeWeights g) n (Some [])) (\<lambda>ews.
          Inr (g\<lparr> nodes := insert n (nodes g), edgeSourceSet := ess,
                   edgeSources := es, edgeWeights := ews \<rparr>))))
      else Inr g)"

text \<open>\<^verbatim>\<open>getNodes()\<close> boxes every present node id below \<open>size_cap\<close>.\<close>

definition getNodes :: "nat \<Rightarrow> 'w Graph \<Rightarrow> Integer list \<times> nat" where
  "getNodes h g = box_all h (filter (\<lambda>n. n \<in> nodes g) [0..size_cap g - 1])"

text \<open>
  One half of \<^verbatim>\<open>addEdge\<close>: \<^verbatim>\<open>if (edgeSourceSet[a].add(b)) { edgeSources[a].add(b);
  edgeWeights[a].add(weight); }\<close>. The set is tested by value, the list stores the object.
\<close>

definition addHalf :: "'w Graph \<Rightarrow> Integer \<Rightarrow> Integer \<Rightarrow> 'w \<Rightarrow> exn + 'w Graph" where
  "addHalf g a b weight =
     ebind (aget (edgeSourceSet g) (intValue a)) (\<lambda>s.
       case s of None \<Rightarrow> Inl NullPointerException
       | Some ss \<Rightarrow>
           if intValue b \<in> ss then Inr g
           else
             ebind (aset (edgeSourceSet g) (intValue a) (Some (insert (intValue b) ss))) (\<lambda>ess.
             ebind (aget (edgeSources g) (intValue a)) (\<lambda>l.
               case l of None \<Rightarrow> Inl NullPointerException
               | Some srcs \<Rightarrow>
                   ebind (aset (edgeSources g) (intValue a) (Some (srcs @ [b]))) (\<lambda>es.
                   ebind (aget (edgeWeights g) (intValue a)) (\<lambda>lw.
                     case lw of None \<Rightarrow> Inl NullPointerException
                     | Some ws \<Rightarrow>
                         ebind (aset (edgeWeights g) (intValue a) (Some (ws @ [weight]))) (\<lambda>ews.
                           Inr (g\<lparr> edgeSourceSet := ess, edgeSources := es,
                                    edgeWeights := ews \<rparr>)))))))"

text \<open>
  \<^verbatim>\<open>addEdge(Integer from, Integer to, Float weight)\<close>. The guard \<^verbatim>\<open>from != to\<close>
  compares the two \<^verbatim>\<open>Integer\<close> objects, not their values.
\<close>

definition addEdge :: "'w Graph \<Rightarrow> Integer \<Rightarrow> Integer \<Rightarrow> 'w \<Rightarrow> exn + 'w Graph" where
  "addEdge g from to weight =
     (if from \<noteq> to then
        ebind (addNode g from) (\<lambda>g1.
        ebind (addNode g1 to) (\<lambda>g2.
        ebind (addHalf g2 from to weight) (\<lambda>g3.
          addHalf g3 to from weight)))
      else Inr g)"

text \<open>
  \<^verbatim>\<open>getEdgeWeight(Integer from, Integer to)\<close>: \<^verbatim>\<open>edges.size()\<close> needs a
  non-null list, \<^verbatim>\<open>edges.get(i).equals(to)\<close> is by value, and \<^verbatim>\<open>weights.get(i)\<close>
  is only reached at a match.
\<close>

fun scan_weight :: "Integer list \<Rightarrow> nat \<Rightarrow> 'w list option \<Rightarrow> int \<Rightarrow> exn + 'w::zero" where
  "scan_weight [] i weights t = Inr 0"
| "scan_weight (e # es) i weights t =
     (if intValue e = t then
        (case weights of None \<Rightarrow> Inl NullPointerException
         | Some ws \<Rightarrow> if i < length ws then Inr (ws ! i) else Inl IndexOutOfBoundsException)
      else scan_weight es (Suc i) weights t)"

definition getEdgeWeight :: "'w Graph \<Rightarrow> Integer \<Rightarrow> Integer \<Rightarrow> exn + 'w::zero" where
  "getEdgeWeight g from to =
     ebind (aget (edgeSources g) (intValue from)) (\<lambda>edges.
     ebind (aget (edgeWeights g) (intValue from)) (\<lambda>weights.
       case edges of None \<Rightarrow> Inl NullPointerException
       | Some es \<Rightarrow> scan_weight es 0 weights (intValue to)))"

definition getNeighbors :: "'w Graph \<Rightarrow> Integer \<Rightarrow> exn + Integer list" where
  "getNeighbors g node =
     ebind (aget (edgeSources g) (intValue node)) (\<lambda>l.
       case l of None \<Rightarrow> Inr [] | Some srcs \<Rightarrow> Inr srcs)"

text \<open>\<^verbatim>\<open>getEdges(Integer node)\<close>: the list of \<^verbatim>\<open>Edge(sources.get(i), weights.get(i))\<close>.\<close>

definition getEdges :: "'w Graph \<Rightarrow> Integer \<Rightarrow> exn + (Integer \<times> 'w) list" where
  "getEdges g node =
     ebind (aget (edgeSources g) (intValue node)) (\<lambda>l.
       case l of None \<Rightarrow> Inr []
       | Some srcs \<Rightarrow>
           ebind (aget (edgeWeights g) (intValue node)) (\<lambda>lw.
             case lw of
               None \<Rightarrow> (if srcs = [] then Inr [] else Inl NullPointerException)
             | Some ws \<Rightarrow>
                 (if length ws < length srcs then Inl IndexOutOfBoundsException
                  else Inr (zip srcs ws))))"

text \<open>
  \<^verbatim>\<open>getNodeClass\<close> and \<^verbatim>\<open>setNodeClass\<close> guard the upper bound only. A class
  is \<open>None\<close> for \<^verbatim>\<open>null\<close>.
\<close>

definition getNodeClass :: "'w Graph \<Rightarrow> Integer \<Rightarrow> exn + Integer option" where
  "getNodeClass g node =
     (if intValue node < int (length (nodeClasses g)) then aget (nodeClasses g) (intValue node)
      else Inr None)"

definition setNodeClass :: "'w Graph \<Rightarrow> Integer \<Rightarrow> Integer option \<Rightarrow> exn + 'w Graph" where
  "setNodeClass g node c =
     (if intValue node < int (length (nodeClasses g)) then
        ebind (aset (nodeClasses g) (intValue node) c) (\<lambda>ncs.
          Inr (g\<lparr> nodeClasses := ncs \<rparr>))
      else Inr g)"

text \<open>
  \<^verbatim>\<open>sortEdges()\<close>. For every node with a non-null source list the indexes
  \<open>0, \<dots>, size - 1\<close> are sorted by \<^verbatim>\<open>Arrays.sort\<close> with the comparator
  \<^verbatim>\<open>Float.compare(weights.get(i1), weights.get(i2))\<close>, and both lists are rebuilt in
  that order. \<^verbatim>\<open>Arrays.sort\<close> on objects is a stable sort; it is modelled by
  \<open>sort_key\<close>. The linear order on \<open>'w\<close> stands for the total order of
  \<^verbatim>\<open>Float.compare\<close>. A weight list shorter than the source list makes
  \<^verbatim>\<open>weights.get\<close> throw.
\<close>

definition sort_node :: "Integer list \<Rightarrow> 'w list \<Rightarrow> exn + (Integer list \<times> 'w::linorder list)" where
  "sort_node sources weights =
     (if length weights < length sources then Inl IndexOutOfBoundsException
      else
        (let indexes = sort_key (\<lambda>i. weights ! i) [0..<length sources] in
         Inr (map (\<lambda>i. sources ! i) indexes, map (\<lambda>i. weights ! i) indexes)))"

fun sortEdges_loop :: "nat list \<Rightarrow> 'w Graph \<Rightarrow> exn + 'w::linorder Graph" where
  "sortEdges_loop [] g = Inr g"
| "sortEdges_loop (n # rest) g =
     (case edgeSources g ! n of
        None \<Rightarrow> sortEdges_loop rest g
      | Some sources \<Rightarrow>
          ebind (aget (edgeWeights g) (int n)) (\<lambda>ws.
            case ws of None \<Rightarrow> Inl NullPointerException
            | Some weights \<Rightarrow>
                ebind (sort_node sources weights) (\<lambda>(sourcesSorted, weightsSorted).
                ebind (aset (edgeWeights g) (int n) (Some weightsSorted)) (\<lambda>ews.
                  sortEdges_loop rest
                    (g\<lparr> edgeSources := (edgeSources g)[n := Some sourcesSorted],
                        edgeWeights := ews \<rparr>)))))"

definition sortEdges :: "'w Graph \<Rightarrow> exn + 'w::linorder Graph" where
  "sortEdges g = sortEdges_loop [0..<length (edgeSources g)] g"

text \<open>A sequence of \<^verbatim>\<open>addEdge\<close> calls; the first exception ends it.\<close>

fun addEdges :: "'w Graph \<Rightarrow> (Integer \<times> Integer \<times> 'w) list \<Rightarrow> exn + 'w Graph" where
  "addEdges g [] = Inr g"
| "addEdges g ((a, b, w) # es) = ebind (addEdge g a b w) (\<lambda>g'. addEdges g' es)"

section \<open>WSI.loadDistributedGraph\<close>

text \<open>
  The edge file is the list of its decoded records. Each \<^verbatim>\<open>readInt()\<close> result is
  boxed where it is passed to \<^verbatim>\<open>addEdge(Integer, Integer, Float)\<close>, the first
  argument before the second.
\<close>

fun load_loop :: "nat \<Rightarrow> (int \<times> int \<times> 'w) list \<Rightarrow> 'w Graph \<Rightarrow> exn + 'w Graph \<times> nat" where
  "load_loop h [] graph = Inr (graph, h)"
| "load_loop h ((f, t, w) # rest) graph =
     (case valueOf h f of (from, h1) \<Rightarrow>
        (case valueOf h1 t of (to, h2) \<Rightarrow>
           ebind (addEdge graph from to w) (\<lambda>g'. load_loop h2 rest g')))"

definition loadDistributedGraph :: "nat \<Rightarrow> (int \<times> int \<times> 'w) list \<Rightarrow> exn + 'w Graph \<times> nat" where
  "loadDistributedGraph h triples = ebind (new_Graph 200000) (\<lambda>graph. load_loop h triples graph)"

section \<open>Cluster.java, ClusterMember.java\<close>

text \<open>
  A \<^verbatim>\<open>ClusterMember\<close> holds a node and a weight (\<open>None\<close> for \<^verbatim>\<open>null\<close>); its
  \<^verbatim>\<open>equals\<close> is \<^verbatim>\<open>member.node == node\<close>, the identity of the node object. A
  \<^verbatim>\<open>Cluster\<close> holds the base node, the sense id and the \<^verbatim>\<open>HashSet\<close> of members,
  kept here as a list without equal elements.
\<close>

datatype 'w ClusterMember = ClusterMember Integer "'w option"

fun member_node :: "'w ClusterMember \<Rightarrow> Integer" where
  "member_node (ClusterMember n w) = n"

record 'w Cluster =
  node :: Integer
  sense :: int
  members :: "'w ClusterMember list"

definition new_Cluster :: "Integer \<Rightarrow> int \<Rightarrow> 'w Cluster" where
  "new_Cluster n s = \<lparr> node = n, sense = s, members = [] \<rparr>"

definition addMember :: "'w Cluster \<Rightarrow> Integer \<Rightarrow> 'w option \<Rightarrow> 'w Cluster" where
  "addMember c n w =
     (if \<exists>m \<in> set (members c). member_node m = n then c
      else c\<lparr> members := members c @ [ClusterMember n w] \<rparr>)"

section \<open>WSI.Worker.findClusters\<close>

text \<open>
  A \<^verbatim>\<open>HashSet<Integer>\<close> is a list without two elements of the same value.
  \<^verbatim>\<open>removeAll\<close> removes by value and keeps the iteration order of what is left.
\<close>

definition hs_add :: "Integer list \<Rightarrow> Integer \<Rightarrow> Integer list" where
  "hs_add xs x = (if intValue x \<in> intValue ` set xs then xs else xs @ [x])"

definition hs_of_list :: "Integer list \<Rightarrow> Integer list" where
  "hs_of_list xs = fold (\<lambda>x acc. hs_add acc x) xs []"

definition hs_removeAll :: "Integer list \<Rightarrow> Integer list \<Rightarrow> Integer list" where
  "hs_removeAll xs rem = filter (\<lambda>x. intValue x \<notin> intValue ` set rem) xs"

text \<open>
  The \<^verbatim>\<open>for (Integer node : nodes)\<close> loop of one round. \<^verbatim>\<open>currentClass == 0\<close>
  unboxes \<^verbatim>\<open>currentClass\<close> (a \<^verbatim>\<open>null\<close> there throws);
  \<^verbatim>\<open>getNodeClass(node) == currentClass\<close> compares two references.
\<close>

fun cluster_sweep :: "'w Graph \<Rightarrow> (int \<rightharpoonup> 'w) \<Rightarrow> Integer list \<Rightarrow> Integer option \<Rightarrow>
    'w Cluster \<Rightarrow> Integer list \<Rightarrow> exn + ('w Cluster \<times> Integer list)" where
  "cluster_sweep tokenGraph weights [] currentClass cluster toRemove = Inr (cluster, toRemove)"
| "cluster_sweep tokenGraph weights (n # ns) currentClass cluster toRemove =
     (case currentClass of None \<Rightarrow> Inl NullPointerException
      | Some c \<Rightarrow>
          ebind (if intValue c = 0 then getNodeClass tokenGraph n else Inr currentClass)
            (\<lambda>currentClass'.
          ebind (getNodeClass tokenGraph n) (\<lambda>k.
            if k = currentClass' then
              cluster_sweep tokenGraph weights ns currentClass'
                (addMember cluster n (weights (intValue n))) (hs_add toRemove n)
            else cluster_sweep tokenGraph weights ns currentClass' cluster toRemove)))"

lemma hs_add_mono: "intValue ` set xs \<subseteq> intValue ` set (hs_add xs x)"
  by (auto simp: hs_add_def)

lemma hs_add_mem: "intValue x \<in> intValue ` set (hs_add xs x)"
  by (auto simp: hs_add_def)

lemma cluster_sweep_mono:
  "cluster_sweep g ws ns cur cl rem = Inr (cl', rem') \<Longrightarrow> intValue ` set rem \<subseteq> intValue ` set rem'"
proof (induction ns arbitrary: cur cl rem)
  case Nil then show ?case by simp
next
  case (Cons n ns)
  then show ?case
    using hs_add_mono[of rem n]
    by (fastforce simp: ebind_def split: option.splits sum.splits if_splits)
qed

lemma cluster_sweep_head:
  assumes "cluster_sweep g ws (n # ns) (Some (Cached 0)) cl rem = Inr (cl', rem')"
  shows "intValue n \<in> intValue ` set rem'"
proof -
  from assms obtain k where k: "getNodeClass g n = Inr k"
    and r: "cluster_sweep g ws ns k (addMember cl n (ws (intValue n))) (hs_add rem n) = Inr (cl', rem')"
    by (auto simp: ebind_def split: sum.splits if_splits)
  from cluster_sweep_mono[OF r] hs_add_mem[of n rem] show ?thesis by blast
qed

lemma hs_removeAll_less:
  "intValue n \<in> intValue ` set rem \<Longrightarrow> length (hs_removeAll (n # ns) rem) < length (n # ns)"
  by (simp add: hs_removeAll_def le_imp_less_Suc)

text \<open>
  The \<^verbatim>\<open>while (nodes.size() > 0)\<close> loop. The cluster of a round is created with
  the current value of \<^verbatim>\<open>sense\<close>; \<^verbatim>\<open>sense++\<close> comes after, when the cluster is
  large enough, and the cluster is then put on the queue. The result is the list of
  clusters put on the queue, in order, and the exception that ended the loop, if any.
  The counter is not wrapped to 32 bits: it is bounded by the number of nodes.
\<close>

function findClusters_loop :: "'w Graph \<Rightarrow> (int \<rightharpoonup> 'w) \<Rightarrow> int \<Rightarrow> Integer \<Rightarrow> Integer list \<Rightarrow> int \<Rightarrow>
    'w Cluster list \<times> exn option" where
  "findClusters_loop tokenGraph weights minCluster baseNode remaining senseId =
     (if remaining = [] then ([], None)
      else
        (case cluster_sweep tokenGraph weights remaining (Some (Cached 0))
                (new_Cluster baseNode senseId) [] of
           Inl e \<Rightarrow> ([], Some e)
         | Inr (cluster, toRemove) \<Rightarrow>
             (if int (length (members cluster)) \<ge> minCluster then
                (case findClusters_loop tokenGraph weights minCluster baseNode
                        (hs_removeAll remaining toRemove) (senseId + 1) of
                   (published, e) \<Rightarrow> (cluster # published, e))
              else findClusters_loop tokenGraph weights minCluster baseNode
                     (hs_removeAll remaining toRemove) senseId)))"
  by pat_completeness auto
termination
proof (relation "measure (\<lambda>(g, ws, mc, b, ns, s). length ns)", goal_cases)
  case 1 show ?case by simp
next
  case (2 g ws mc b ns s x2 cl rem)
  then show ?case using cluster_sweep_head hs_removeAll_less by (cases ns) fastforce+
next
  case (3 g ws mc b ns s x2 cl rem)
  then show ?case using cluster_sweep_head hs_removeAll_less by (cases ns) fastforce+
qed


text \<open>
  \<^verbatim>\<open>findClusters(baseNode, tokenGraph)\<close>. The iteration order of the \<^verbatim>\<open>HashSet\<close>
  of nodes is a parameter (any function on the list of its elements); \<open>h\<close> is the
  allocation counter at the call.
\<close>

definition findClusters :: "nat \<Rightarrow> (Integer list \<Rightarrow> Integer list) \<Rightarrow> 'w Graph \<Rightarrow> int \<Rightarrow>
    Integer \<Rightarrow> 'w Graph \<Rightarrow> 'w Cluster list \<times> exn option" where
  "findClusters h iteration_order distributedGraph minCluster baseNode tokenGraph =
     (let remaining = iteration_order (hs_of_list (fst (getNodes h tokenGraph))) in
      case getEdges distributedGraph baseNode of
        Inl e \<Rightarrow> ([], Some e)
      | Inr edges \<Rightarrow>
          findClusters_loop tokenGraph
            (fold (\<lambda>(n, w) m. m(intValue n \<mapsto> w)) edges Map.empty)
            minCluster baseNode remaining 0)"

declare findClusters_loop.simps [simp del]

lemma addMember_sense: "sense (addMember c n w) = sense c"
  by (simp add: addMember_def)

lemma cluster_sweep_sense:
  "cluster_sweep g ws ns cur cl rem = Inr (cl', rem') \<Longrightarrow> sense cl' = sense cl"
proof (induction ns arbitrary: cur cl rem)
  case Nil then show ?case by simp
next
  case (Cons n ns)
  then show ?case
    by (fastforce simp: ebind_def addMember_sense split: option.splits sum.splits if_splits)
qed

lemma findClusters_loop_size:
  "\<forall>c \<in> set (fst (findClusters_loop g ws mc b ns s)). mc \<le> int (length (members c))"
proof (induction g ws mc b ns s rule: findClusters_loop.induct)
  case (1 g ws mc b ns s)
  show ?case
  proof (cases "ns = []")
    case True
    then show ?thesis by (simp add: findClusters_loop.simps)
  next
    case ne: False
    show ?thesis
    proof (cases "cluster_sweep g ws ns (Some (Cached 0)) (new_Cluster b s) []")
      case (Inl e)
      with ne show ?thesis by (simp add: findClusters_loop.simps)
    next
      case (Inr p)
      obtain cl rem where p: "p = (cl, rem)" by (cases p)
      show ?thesis
      proof (cases "mc \<le> int (length (members cl))")
        case True
        from "1.IH"(1)[OF ne Inr p[symmetric] True] ne Inr p True
        show ?thesis
          by (subst findClusters_loop.simps) (simp split: prod.splits)
      next
        case False
        from "1.IH"(2)[OF ne Inr p[symmetric] False] ne Inr p False
        show ?thesis
          by (subst findClusters_loop.simps) simp
      qed
    qed
  qed
qed

lemma findClusters_loop_sense:
  "map sense (fst (findClusters_loop g ws mc b ns s)) =
   map (\<lambda>i. s + int i) [0..<length (fst (findClusters_loop g ws mc b ns s))]"
proof (induction g ws mc b ns s rule: findClusters_loop.induct)
  case (1 g ws mc b ns s)
  show ?case
  proof (cases "ns = []")
    case True
    then show ?thesis by (simp add: findClusters_loop.simps)
  next
    case ne: False
    show ?thesis
    proof (cases "cluster_sweep g ws ns (Some (Cached 0)) (new_Cluster b s) []")
      case (Inl e)
      with ne show ?thesis by (simp add: findClusters_loop.simps)
    next
      case (Inr p)
      obtain cl rem where p: "p = (cl, rem)" by (cases p)
      have scl: "sense cl = s"
        using cluster_sweep_sense[OF Inr[unfolded p]] by (simp add: new_Cluster_def)
      show ?thesis
      proof (cases "mc \<le> int (length (members cl))")
        case True
        define r where "r = findClusters_loop g ws mc b (hs_removeAll ns rem) (s + 1)"
        have eq: "findClusters_loop g ws mc b ns s = (cl # fst r, snd r)"
          using ne Inr p True
          by (subst findClusters_loop.simps) (simp add: r_def split: prod.splits)
        have ih: "map sense (fst r) = map (\<lambda>i. s + 1 + int i) [0..<length (fst r)]"
          using "1.IH"(1)[OF ne Inr p[symmetric] True] by (simp add: r_def)
        have "map (\<lambda>i. s + int i) [0..<Suc (length (fst r))] =
              s # map (\<lambda>i. s + 1 + int i) [0..<length (fst r)]"
          by (simp add: upt_conv_Cons map_Suc_upt[symmetric] del: upt_Suc)
        with ih scl eq show ?thesis by simp
      next
        case False
        have eq: "findClusters_loop g ws mc b ns s =
                  findClusters_loop g ws mc b (hs_removeAll ns rem) s"
          using ne Inr p False
          by (subst findClusters_loop.simps) simp
        from "1.IH"(2)[OF ne Inr p[symmetric] False] eq show ?thesis by simp
      qed
    qed
  qed
qed

section \<open>WSI.Worker.createTokenGraph\<close>

fun ego_inner :: "int \<Rightarrow> Integer list \<Rightarrow> Integer \<Rightarrow> (Integer \<times> 'w) list \<Rightarrow> 'w Graph \<Rightarrow>
    exn + 'w Graph" where
  "ego_inner n neighbors neighbor [] graph = Inr graph"
| "ego_inner n neighbors neighbor ((foreignNeighbor, weight) # rest) graph =
     (if intValue foreignNeighbor \<noteq> n \<and> intValue foreignNeighbor \<in> intValue ` set neighbors then
        ebind (addEdge graph neighbor foreignNeighbor weight) (\<lambda>g'.
          ego_inner n neighbors neighbor rest g')
      else ego_inner n neighbors neighbor rest graph)"

fun ego_outer :: "'w Graph \<Rightarrow> int \<Rightarrow> int \<Rightarrow> Integer list \<Rightarrow> Integer list \<Rightarrow> 'w Graph \<Rightarrow>
    exn + 'w Graph" where
  "ego_outer distributedGraph maxConnectivity n neighbors [] graph = Inr graph"
| "ego_outer distributedGraph maxConnectivity n neighbors (neighbor # rest) graph =
     ebind (getEdges distributedGraph neighbor) (\<lambda>foreignNeighbors.
     ebind (ego_inner n neighbors neighbor (take (nat maxConnectivity) foreignNeighbors) graph)
       (\<lambda>g'. ego_outer distributedGraph maxConnectivity n neighbors rest g'))"

definition createTokenGraph :: "nat \<Rightarrow> 'w Graph \<Rightarrow> int \<Rightarrow> int \<Rightarrow> int \<Rightarrow> exn + 'w Graph \<times> nat" where
  "createTokenGraph h distributedGraph maxEdges maxConnectivity n =
     ebind (new_Graph 10) (\<lambda>graph.
       case valueOf h n of (b, h') \<Rightarrow>
         ebind (getNeighbors distributedGraph b) (\<lambda>neighbors.
         ebind (ego_outer distributedGraph maxConnectivity n neighbors
                  (take (nat maxEdges) neighbors) graph) (\<lambda>g'. Inr (g', h'))))"

section \<open>WSI.Worker.chineseWhispers\<close>

text \<open>
  The \<^verbatim>\<open>HashMap<Integer, Float> classes\<close> of one node is an association list; keys
  are compared by \<^verbatim>\<open>equals\<close> (by value, \<^verbatim>\<open>null\<close> being a legal key), and a
  \<^verbatim>\<open>put\<close> on a key that is present keeps the key object. The weight type needs
  only \<open>+\<close> and \<open>>\<close>, with no law assumed of either, as for \<^verbatim>\<open>float\<close>.
\<close>

definition hm_key_eq :: "Integer option \<Rightarrow> Integer option \<Rightarrow> bool" where
  "hm_key_eq k c = (map_option intValue k = map_option intValue c)"

definition hm_add :: "(Integer option \<times> 'w) list \<Rightarrow> Integer option \<Rightarrow> 'w \<Rightarrow>
    (Integer option \<times> 'w::plus) list" where
  "hm_add classes cls weight =
     (if \<exists>(k, v) \<in> set classes. hm_key_eq k cls then
        map (\<lambda>(k, v). if hm_key_eq k cls then (k, v + weight) else (k, v)) classes
      else classes @ [(cls, weight)])"

fun collect_classes :: "'w Graph \<Rightarrow> (Integer \<times> 'w) list \<Rightarrow> (Integer option \<times> 'w) list \<Rightarrow>
    exn + (Integer option \<times> 'w::plus) list" where
  "collect_classes tokenNetwork [] classes = Inr classes"
| "collect_classes tokenNetwork ((nb, weight) # rest) classes =
     ebind (getNodeClass tokenNetwork nb) (\<lambda>cls.
       collect_classes tokenNetwork rest (hm_add classes cls weight))"

text \<open>The \<^verbatim>\<open>for (Integer c : classes.keySet())\<close> loop.\<close>

fun max_class :: "(Integer option \<times> 'w) list \<Rightarrow> 'w::ord \<Rightarrow> Integer option \<Rightarrow> Integer option" where
  "max_class [] mx maxClass = maxClass"
| "max_class ((c, v) # rest) mx maxClass =
     (if v > mx then max_class rest v c else max_class rest mx maxClass)"

text \<open>
  The \<^verbatim>\<open>for (Integer node : nodes)\<close> loop of one sweep. The iteration order of the
  key set is the parameter \<open>key_order\<close>, \<^verbatim>\<open>-10000f\<close> is \<open>init_max\<close>, and
  \<^verbatim>\<open>getNodeClass(node) != maxClass\<close> compares two references.
\<close>

fun cw_nodes :: "((Integer option \<times> 'w) list \<Rightarrow> (Integer option \<times> 'w) list) \<Rightarrow> 'w \<Rightarrow>
    Integer list \<Rightarrow> 'w Graph \<Rightarrow> bool \<Rightarrow> exn + ('w::{plus,ord} Graph \<times> bool)" where
  "cw_nodes key_order init_max [] tokenNetwork changed = Inr (tokenNetwork, changed)"
| "cw_nodes key_order init_max (x # xs) tokenNetwork changed =
     ebind (getEdges tokenNetwork x) (\<lambda>neighbors.
     ebind (collect_classes tokenNetwork neighbors []) (\<lambda>classes.
     ebind (getNodeClass tokenNetwork x) (\<lambda>c.
       let maxClass = max_class (key_order classes) init_max (Some (Cached 0)) in
       if c \<noteq> maxClass then
         ebind (setNodeClass tokenNetwork x maxClass) (\<lambda>g'.
           cw_nodes key_order init_max xs g' True)
       else cw_nodes key_order init_max xs tokenNetwork changed)))"

text \<open>The initial classes \<open>1, 2, \<dots>\<close>, each boxed at the call of \<^verbatim>\<open>setNodeClass\<close>.\<close>

fun cw_init :: "nat \<Rightarrow> Integer list \<Rightarrow> int \<Rightarrow> 'w Graph \<Rightarrow> exn + ('w Graph \<times> nat)" where
  "cw_init h [] i tokenNetwork = Inr (tokenNetwork, h)"
| "cw_init h (x # xs) i tokenNetwork =
     (case valueOf h i of (b, h') \<Rightarrow>
        ebind (setNodeClass tokenNetwork x (Some b)) (\<lambda>g'. cw_init h' xs (i + 1) g'))"

text \<open>
  The \<^verbatim>\<open>for (int z = 0; z < maxIterations; z++)\<close> loop, with \<open>left\<close> the number of
  values of \<open>z\<close> still to come. \<^verbatim>\<open>Collections.shuffle\<close> is the parameter
  \<open>shuffle\<close>, which may differ from sweep to sweep. The first component of the result
  has one entry for every sweep that was started: the value of \<^verbatim>\<open>changed\<close> at its end.
\<close>

fun cw_iterate :: "(nat \<Rightarrow> Integer list \<Rightarrow> Integer list) \<Rightarrow>
    ((Integer option \<times> 'w) list \<Rightarrow> (Integer option \<times> 'w) list) \<Rightarrow> 'w \<Rightarrow>
    nat \<Rightarrow> nat \<Rightarrow> bool \<Rightarrow> nat \<Rightarrow> 'w Graph \<Rightarrow> bool list \<times> (exn + 'w::{plus,ord} Graph \<times> nat)" where
  "cw_iterate shuffle key_order init_max 0 z changed h tokenNetwork = ([], Inr (tokenNetwork, h))"
| "cw_iterate shuffle key_order init_max (Suc left) z changed h tokenNetwork =
     (if \<not> changed then ([], Inr (tokenNetwork, h))
      else
        (case getNodes h tokenNetwork of (ns, h') \<Rightarrow>
           (case cw_nodes key_order init_max (shuffle z ns) tokenNetwork False of
              Inl e \<Rightarrow> ([False], Inl e)
            | Inr (g', changed') \<Rightarrow>
                (case cw_iterate shuffle key_order init_max left (Suc z) changed' h' g' of
                   (sweeps, r) \<Rightarrow> (changed' # sweeps, r)))))"

definition chineseWhispers :: "(nat \<Rightarrow> Integer list \<Rightarrow> Integer list) \<Rightarrow>
    ((Integer option \<times> 'w) list \<Rightarrow> (Integer option \<times> 'w) list) \<Rightarrow> 'w \<Rightarrow>
    int \<Rightarrow> nat \<Rightarrow> 'w Graph \<Rightarrow> bool list \<times> (exn + 'w::{plus,ord} Graph \<times> nat)" where
  "chineseWhispers shuffle key_order init_max maxIterations h tokenNetwork =
     (case getNodes h tokenNetwork of (n, h1) \<Rightarrow>
        (case cw_init h1 n 1 tokenNetwork of
           Inl e \<Rightarrow> ([], Inl e)
         | Inr (g1, h2) \<Rightarrow>
             cw_iterate shuffle key_order init_max (nat maxIterations) 0 True h2 g1))"

lemma cw_iterate_unchanged:
  "cw_iterate shuffle key_order init_max left z False h g = ([], Inr (g, h))"
  by (cases left) simp_all

lemma cw_iterate_length:
  "length (fst (cw_iterate shuffle key_order init_max left z changed h g)) \<le> left"
proof (induction left arbitrary: z changed h g)
  case 0 show ?case by simp
next
  case (Suc left)
  show ?case
  proof (cases changed)
    case False then show ?thesis by simp
  next
    case True
    obtain ns h' where gn: "getNodes h g = (ns, h')" by (cases "getNodes h g")
    show ?thesis
    proof (cases "cw_nodes key_order init_max (shuffle z ns) g False")
      case (Inl e)
      with True gn show ?thesis by simp
    next
      case (Inr p)
      obtain g' c' where p: "p = (g', c')" by (cases p)
      from Suc.IH[of "Suc z" c' h' g'] True gn Inr p show ?thesis
        by (auto split: prod.splits)
    qed
  qed
qed

lemma cw_iterate_butlast:
  "butlast (fst (cw_iterate shuffle key_order init_max left z changed h g)) =
   replicate (length (fst (cw_iterate shuffle key_order init_max left z changed h g)) - 1) True"
proof (induction left arbitrary: z changed h g)
  case 0 show ?case by simp
next
  case (Suc left)
  show ?case
  proof (cases changed)
    case False then show ?thesis by simp
  next
    case True
    obtain ns h' where gn: "getNodes h g = (ns, h')" by (cases "getNodes h g")
    show ?thesis
    proof (cases "cw_nodes key_order init_max (shuffle z ns) g False")
      case (Inl e)
      with True gn show ?thesis by simp
    next
      case (Inr p)
      obtain g' c' where p: "p = (g', c')" by (cases p)
      define r where "r = fst (cw_iterate shuffle key_order init_max left (Suc z) c' h' g')"
      have eq: "fst (cw_iterate shuffle key_order init_max (Suc left) z changed h g) = c' # r"
        using True gn Inr p by (simp add: r_def split: prod.splits)
      show ?thesis
      proof (cases c')
        case False
        then have "r = []" by (simp add: r_def cw_iterate_unchanged)
        with eq show ?thesis by simp
      next
        case c: True
        from Suc.IH[of "Suc z" c' h' g'] have ih: "butlast r = replicate (length r - 1) True"
          by (simp add: r_def)
        show ?thesis
        proof (cases r)
          case Nil with eq show ?thesis by simp
        next
          case (Cons a as)
          with ih eq c show ?thesis by (simp add: replicate_Suc[symmetric] del: replicate_Suc)
        qed
      qed
    qed
  qed
qed

section \<open>tokens_inner.pyx: argpartition\<close>

text \<open>
  The Cython kernel works on C arrays with bounds checks switched off, so a read outside
  an array is undefined behaviour: \<open>rd\<close> returns \<open>None\<close> there, and \<open>None\<close> is
  the result of everything that follows. \<^verbatim>\<open>nearest\<close> holds \<^verbatim>\<open>INT_t\<close> values,
  \<^verbatim>\<open>similar\<close> holds \<^verbatim>\<open>REAL_t\<close> values, for which a linear order \<open>'a\<close> stands
  (floats without NaN); \<open>key\<close> is \<^verbatim>\<open>similar[nearest[i]]\<close>. The loop variables are C
  \<^verbatim>\<open>int\<close>s; they stay between \<open>-1\<close> and the array size, so they are not wrapped.
  \<^verbatim>\<open>(r + w) / 2\<close> is C division (\<^verbatim>\<open>cdivision=True\<close>), which truncates towards zero.
\<close>

definition rd :: "'a list \<Rightarrow> int \<Rightarrow> 'a option" where
  "rd xs i = (if 0 \<le> i \<and> i < int (length xs) then Some (xs ! nat i) else None)"

definition key :: "'a list \<Rightarrow> int list \<Rightarrow> int \<Rightarrow> 'a option" where
  "key similar nearest i = Option.bind (rd nearest i) (\<lambda>j. rd similar j)"

definition swap :: "int list \<Rightarrow> int \<Rightarrow> int \<Rightarrow> int list option" where
  "swap nearest r w =
     (case rd nearest w of None \<Rightarrow> None
      | Some temp \<Rightarrow>
          (case rd nearest r of None \<Rightarrow> None
           | Some x \<Rightarrow> Some (nearest[nat w := x, nat r := temp])))"

definition c_div2 :: "int \<Rightarrow> int" where
  "c_div2 x = (if 0 \<le> x then x div 2 else - ((- x) div 2))"

text \<open>
  The inner loop \<^verbatim>\<open>while r < w\<close>: an entry whose score is at most the pivot is
  swapped to position \<open>w\<close>, so the larger scores stay on the left.
\<close>

function partition_loop :: "'a::linorder list \<Rightarrow> 'a \<Rightarrow> int list \<Rightarrow> int \<Rightarrow> int \<Rightarrow>
    (int list \<times> int) option" where
  "partition_loop similar mid nearest r w =
     (if r < w then
        (case key similar nearest r of None \<Rightarrow> None
         | Some x \<Rightarrow>
             if x \<le> mid then
               (case swap nearest r w of None \<Rightarrow> None
                | Some nearest' \<Rightarrow> partition_loop similar mid nearest' r (w - 1))
             else partition_loop similar mid nearest (r + 1) w)
      else Some (nearest, r))"
  by pat_completeness auto
termination
  by (relation "measure (\<lambda>(s, m, n, r, w). nat (w - r))") auto

declare partition_loop.simps [simp del]

text \<open>
  The outer loop \<^verbatim>\<open>while from_i < to_i\<close>. Its termination is not evident from the
  code (a pass can leave both bounds as they are), so it is a partial function: \<open>None\<close>
  also stands for a loop that does not end. That it ends is part of what is proved.
\<close>

partial_function (option) argpartition_loop :: "'a::linorder list \<Rightarrow> int \<Rightarrow> int list \<Rightarrow> int \<Rightarrow> int \<Rightarrow>
    int list option" where
  "argpartition_loop similar k nearest from_i to_i =
     (if from_i < to_i then
        Option.bind (key similar nearest (c_div2 (from_i + to_i))) (\<lambda>mid.
        Option.bind (partition_loop similar mid nearest from_i to_i) (\<lambda>(nearest', r).
        Option.bind (key similar nearest' r) (\<lambda>x.
          let r' = (if x < mid then r - 1 else r) in
          if k \<le> r' then argpartition_loop similar k nearest' from_i r'
          else argpartition_loop similar k nearest' (r' + 1) to_i)))
      else Some nearest)"

declare argpartition_loop.simps [code]

definition argpartition :: "int list \<Rightarrow> 'a::linorder list \<Rightarrow> int \<Rightarrow> int \<Rightarrow> int list option" where
  "argpartition nearest similar k size_n = argpartition_loop similar k nearest 0 (size_n - 1)"

section \<open>tokens_inner.pyx: calculate_edges\<close>

text \<open>
  The output array \<^verbatim>\<open>edges\<close> is a store from slot index to \<^verbatim>\<open>GraphEdge\<close>, so that
  every write is recorded at the index the code computes, whether or not it lies in
  the allocated \<open>N_TOKENS * n\<close> slots. \<open>emit\<close> is the loop
  \<^verbatim>\<open>for j in range(n+1)\<close> of one token; the three field assignments use the same
  index and are one write. \<open>rows\<close> is the loop over the rows of a batch, from the
  point after the BLAS call: \<^verbatim>\<open>c_similar\<close>, the product that \<^verbatim>\<open>sgemm\<close> left in
  column-major order, is taken as given, and \<^verbatim>\<open>nearest_temp\<close> is
  \<open>[0, \<dots>, N_TOKENS - 1]\<close>.
\<close>

record 'a GraphEdge =
  from_index :: int
  to_index :: int
  weight :: 'a

fun emit :: "(int \<rightharpoonup> 'a GraphEdge) \<Rightarrow> int list \<Rightarrow> 'a list \<Rightarrow> int \<Rightarrow> int \<Rightarrow> int list \<Rightarrow> int \<Rightarrow>
    (int \<rightharpoonup> 'a GraphEdge) option" where
  "emit edges c_nearest c_sim n token [] offset = Some edges"
| "emit edges c_nearest c_sim n token (j # js) offset =
     (case rd c_nearest j of None \<Rightarrow> None
      | Some t \<Rightarrow>
          (let offset' = (if t = token then - 1 else offset) in
           case rd c_sim t of None \<Rightarrow> None
           | Some w \<Rightarrow>
               emit (edges(token * n + j + offset' \<mapsto>
                       \<lparr> from_index = token, to_index = t, weight = w \<rparr>))
                 c_nearest c_sim n token js offset'))"

fun rows :: "'a::linorder list \<Rightarrow> (int \<rightharpoonup> 'a GraphEdge) \<Rightarrow> int \<Rightarrow> int \<Rightarrow> int \<Rightarrow> int \<Rightarrow> int list \<Rightarrow>
    (int \<rightharpoonup> 'a GraphEdge) option" where
  "rows c_similar edges N_TOKENS n batch_size start_index [] = Some edges"
| "rows c_similar edges N_TOKENS n batch_size start_index (i # is) =
     (case those (map (\<lambda>j. rd c_similar (j * batch_size + i)) [0..N_TOKENS - 1]) of
        None \<Rightarrow> None
      | Some c_sim \<Rightarrow>
          (case argpartition [0..N_TOKENS - 1] c_sim (n + 1) N_TOKENS of
             None \<Rightarrow> None
           | Some c_nearest \<Rightarrow>
               (case emit edges c_nearest c_sim n (start_index + i) [0..n] 0 of
                  None \<Rightarrow> None
                | Some edges' \<Rightarrow> rows c_similar edges' N_TOKENS n batch_size start_index is)))"

definition calculate_edges :: "int \<Rightarrow> 'a::linorder list \<Rightarrow> (int \<rightharpoonup> 'a GraphEdge) \<Rightarrow> int \<Rightarrow> int \<Rightarrow> int \<Rightarrow>
    (int \<rightharpoonup> 'a GraphEdge) option" where
  "calculate_edges index c_similar edges N_TOKENS n batch_size =
     (let start_index = index * batch_size;
          end_index = min ((index + 1) * batch_size) N_TOKENS in
      if start_index \<ge> N_TOKENS then Some edges
      else rows c_similar edges N_TOKENS n batch_size start_index
             [0..min batch_size (end_index - start_index) - 1])"

section \<open>A worked example\<close>

text \<open>
  Scenario S5 of the specification: base node 0 with neighbours 1, 2, 3, which form a
  triangle. \<open>example_empty\<close> is the graph that \<^verbatim>\<open>new Graph()\<close> creates,
  \<open>example_G\<close> the graph after the six edges were added, \<open>example_sorted\<close> the same
  graph after \<^verbatim>\<open>sortEdges\<close>, \<open>example_ego0\<close> the ego network of node 0 as
  \<^verbatim>\<open>createTokenGraph\<close> builds it, and \<open>example_ego\<close> that network with the classes
  that \<^verbatim>\<open>chineseWhispers\<close> leaves when each shuffle reverses the node list.
\<close>

definition example_empty :: "real Graph" where
  "example_empty = \<lparr> size_cap = 10, nodes = {},
     nodeClasses = [None, None, None, None, None, None, None, None, None, None],
     edgeSourceSet = [None, None, None, None, None, None, None, None, None, None],
     edgeSources = [None, None, None, None, None, None, None, None, None, None],
     edgeWeights = [None, None, None, None, None, None, None, None, None, None] \<rparr>"

definition example_G :: "real Graph" where
  "example_G = \<lparr> size_cap = 10, nodes = {3, 2, 1, 0},
     nodeClasses = [None, None, None, None, None, None, None, None, None, None],
     edgeSourceSet = [Some {3, 2, 1}, Some {3, 2, 0}, Some {3, 1, 0}, Some {1, 2, 0},
                      None, None, None, None, None, None],
     edgeSources = [Some [Cached 1, Cached 2, Cached 3], Some [Cached 0, Cached 2, Cached 3],
                    Some [Cached 0, Cached 1, Cached 3], Some [Cached 0, Cached 2, Cached 1],
                    None, None, None, None, None, None],
     edgeWeights = [Some [9 / 10, 4 / 5, 2 / 5], Some [9 / 10, 1 / 2, 3 / 5],
                    Some [4 / 5, 1 / 2, 7 / 10], Some [2 / 5, 7 / 10, 3 / 5],
                    None, None, None, None, None, None] \<rparr>"

definition example_sorted :: "real Graph" where
  "example_sorted = \<lparr> size_cap = 10, nodes = {3, 2, 1, 0},
     nodeClasses = [None, None, None, None, None, None, None, None, None, None],
     edgeSourceSet = [Some {3, 2, 1}, Some {3, 2, 0}, Some {3, 1, 0}, Some {1, 2, 0},
                      None, None, None, None, None, None],
     edgeSources = [Some [Cached 3, Cached 2, Cached 1], Some [Cached 2, Cached 3, Cached 0],
                    Some [Cached 1, Cached 3, Cached 0], Some [Cached 0, Cached 1, Cached 2],
                    None, None, None, None, None, None],
     edgeWeights = [Some [2 / 5, 4 / 5, 9 / 10], Some [1 / 2, 3 / 5, 9 / 10],
                    Some [1 / 2, 7 / 10, 4 / 5], Some [2 / 5, 3 / 5, 7 / 10],
                    None, None, None, None, None, None] \<rparr>"

definition example_ego0 :: "real Graph" where
  "example_ego0 = \<lparr> size_cap = 10, nodes = {2, 1, 3},
     nodeClasses = [None, None, None, None, None, None, None, None, None, None],
     edgeSourceSet = [None, Some {2, 3}, Some {1, 3}, Some {2, 1},
                      None, None, None, None, None, None],
     edgeSources = [None, Some [Cached 3, Cached 2], Some [Cached 3, Cached 1],
                    Some [Cached 1, Cached 2], None, None, None, None, None, None],
     edgeWeights = [None, Some [3 / 5, 1 / 2], Some [7 / 10, 1 / 2], Some [3 / 5, 7 / 10],
                    None, None, None, None, None, None] \<rparr>"

definition example_ego :: "real Graph" where
  "example_ego = example_ego0
     \<lparr> nodeClasses := [None, Some (Cached 2), Some (Cached 2), Some (Cached 2),
                        None, None, None, None, None, None] \<rparr>"

lemma example_empty_new: "new_Graph 10 = Inr example_empty"
  by code_simp

lemma example_G_added:
  "addEdges example_empty
     [(Cached 0, Cached 1, 9 / 10), (Cached 0, Cached 2, 4 / 5), (Cached 0, Cached 3, 2 / 5),
      (Cached 1, Cached 2, 1 / 2), (Cached 2, Cached 3, 7 / 10), (Cached 1, Cached 3, 3 / 5)]
   = Inr example_G"
  by code_simp

lemma example_sortEdges: "sortEdges example_G = Inr example_sorted"
  by code_simp

lemma example_createTokenGraph:
  "createTokenGraph 0 example_sorted 200 200 0 = Inr (example_ego0, 0)"
  by code_simp

lemma example_chineseWhispers:
  "chineseWhispers (\<lambda>z. rev) id (- 10000) 100 0 example_ego0 = ([True, False], Inr (example_ego, 0))"
  by code_simp

lemma example_findClusters:
  "findClusters 0 id example_sorted 2 (Cached 0) example_ego =
     ([\<lparr> node = Cached 0, sense = 0,
         members = [ClusterMember (Cached 1) (Some (9 / 10)), ClusterMember (Cached 2) (Some (4 / 5)),
                    ClusterMember (Cached 3) (Some (2 / 5))] \<rparr>], None)"
  by code_simp

section \<open>Invariants of a graph built by addEdge\<close>

text \<open>
  \<open>slot\<close> reads an array of nullable entries at any index (\<open>None\<close> outside the
  array); \<open>adjw g u\<close> is the adjacency of node \<open>u\<close> as a list of pairs of
  neighbour id and weight. \<open>graph_wf\<close> says that the arrays have length
  \<open>size_cap\<close> and that a node is in \<open>nodes\<close> exactly when its three entries are
  non-null, in which case the set and the two lists agree and no neighbour id occurs
  twice. \<open>built\<close> holds of the graphs that a constructor call followed by
  \<^verbatim>\<open>addEdge\<close> calls produces.
\<close>

definition slot :: "'a option list \<Rightarrow> int \<Rightarrow> 'a option" where
  "slot arr n = (if 0 \<le> n \<and> n < int (length arr) then arr ! nat n else None)"

definition adjw :: "'w Graph \<Rightarrow> int \<Rightarrow> (int \<times> 'w) list" where
  "adjw g u =
     (case (slot (edgeSources g) u, slot (edgeWeights g) u) of
        (Some L, Some W) \<Rightarrow> zip (map intValue L) W
      | _ \<Rightarrow> [])"

definition node_wf :: "'w Graph \<Rightarrow> int \<Rightarrow> bool" where
  "node_wf g n =
     (if n \<in> nodes g then
        (\<exists>L W. slot (edgeSourceSet g) n = Some (intValue ` set L) \<and>
               slot (edgeSources g) n = Some L \<and> slot (edgeWeights g) n = Some W \<and>
               length W = length L \<and> distinct (map intValue L))
      else slot (edgeSourceSet g) n = None \<and> slot (edgeSources g) n = None \<and>
           slot (edgeWeights g) n = None)"

definition graph_wf :: "'w Graph \<Rightarrow> bool" where
  "graph_wf g =
     (0 \<le> size_cap g \<and>
      int (length (nodeClasses g)) = size_cap g \<and>
      int (length (edgeSourceSet g)) = size_cap g \<and>
      int (length (edgeSources g)) = size_cap g \<and>
      int (length (edgeWeights g)) = size_cap g \<and>
      (\<forall>n. node_wf g n))"

definition add_half_adj :: "(int \<Rightarrow> (int \<times> 'w) list) \<Rightarrow> int \<Rightarrow> int \<Rightarrow> 'w \<Rightarrow> int \<Rightarrow> (int \<times> 'w) list" where
  "add_half_adj adj x y w =
     (\<lambda>u. if u = x \<and> y \<notin> fst ` set (adj x) then adj u @ [(y, w)] else adj u)"

definition adj_sym :: "(int \<Rightarrow> (int \<times> 'w) list) \<Rightarrow> bool" where
  "adj_sym adj = (\<forall>u v w. ((v, w) \<in> set (adj u)) = ((u, w) \<in> set (adj v)))"

definition sorted_slot :: "'w::linorder Graph \<Rightarrow> 'w Graph \<Rightarrow> nat \<Rightarrow> bool" where
  "sorted_slot g g' i =
     (case edgeSources g ! i of
        None \<Rightarrow> edgeSources g' ! i = None \<and> edgeWeights g' ! i = edgeWeights g ! i
      | Some srcs \<Rightarrow>
          (\<exists>ws. i < length (edgeWeights g) \<and> edgeWeights g ! i = Some ws \<and> length srcs \<le> length ws \<and>
             edgeSources g' ! i =
               Some (map (\<lambda>k. srcs ! k) (sort_key (\<lambda>k. ws ! k) [0..<length srcs])) \<and>
             edgeWeights g' ! i =
               Some (map (\<lambda>k. ws ! k) (sort_key (\<lambda>k. ws ! k) [0..<length srcs]))))"

definition same_slot :: "'w Graph \<Rightarrow> 'w Graph \<Rightarrow> nat \<Rightarrow> bool" where
  "same_slot g g' i = (edgeSources g' ! i = edgeSources g ! i \<and> edgeWeights g' ! i = edgeWeights g ! i)"

definition slots_ok :: "'w Graph \<Rightarrow> nat \<Rightarrow> bool" where
  "slots_ok g i =
     (case edgeSources g ! i of None \<Rightarrow> True
      | Some s \<Rightarrow> i < length (edgeWeights g) \<and>
          (\<exists>ws. edgeWeights g ! i = Some ws \<and> length s \<le> length ws))"

definition built :: "'w Graph \<Rightarrow> bool" where
  "built g = (\<exists>n g0 es. new_Graph n = Inr g0 \<and> addEdges g0 es = Inr g)"

lemma slot_append_None [simp]: "slot (arr @ replicate k None) n = slot arr n"
  by (auto simp: slot_def nth_append)

lemma slot_replicate_None [simp]: "slot (replicate k None) n = None"
  by (auto simp: slot_def)

lemma aget_slot: "aget arr n = Inr x \<Longrightarrow> slot arr n = x"
  by (auto simp: aget_def slot_def split: if_splits)

lemma aget_Inr_iff: "(aget arr n = Inr x) = (0 \<le> n \<and> n < int (length arr) \<and> slot arr n = x)"
  by (auto simp: aget_def slot_def)

lemma aset_Inr_iff:
  "(aset arr n v = Inr arr') = (0 \<le> n \<and> n < int (length arr) \<and> arr' = arr[nat n := v])"
  by (auto simp: aset_def)

lemma slot_update:
  "0 \<le> n \<Longrightarrow> n < int (length arr) \<Longrightarrow> slot (arr[nat n := v]) m = (if m = n then v else slot arr m)"
  by (auto simp: slot_def)

lemma slot_Some_range: "slot arr n = Some x \<Longrightarrow> 0 \<le> n \<and> n < int (length arr)"
  by (auto simp: slot_def split: if_splits)

lemma new_Graph_wf: "new_Graph n = Inr g \<Longrightarrow> graph_wf g"
  by (auto simp: new_Graph_def graph_wf_def node_wf_def split: if_splits)

lemma new_Graph_adjw: "new_Graph n = Inr g \<Longrightarrow> adjw g u = []"
  by (auto simp: new_Graph_def adjw_def split: if_splits)

lemma copyOf_grow:
  "int (length arr) \<le> m \<Longrightarrow> copyOf arr m = arr @ replicate (nat m - length arr) None"
  by (simp add: copyOf_def)

lemma ensureCapacity_cases:
  assumes "graph_wf g"
  shows "(ensureCapacity g m = g \<and> m \<le> size_cap g) \<or>
    (\<exists>k j. size_cap g < k \<and> m \<le> k \<and>
      ensureCapacity g m = g\<lparr> nodeClasses := nodeClasses g @ replicate j None,
            edgeSourceSet := edgeSourceSet g @ replicate j None,
            edgeSources := edgeSources g @ replicate j None,
            edgeWeights := edgeWeights g @ replicate j None,
            size_cap := k \<rparr> \<and> int j = k - size_cap g)"
proof (cases "m > size_cap g")
  case False
  then show ?thesis by (simp add: ensureCapacity_def)
next
  case True
  define k where "k = max m (i32 (size_cap g * 2))"
  have k: "size_cap g < k" "m \<le> k" using True by (auto simp: k_def)
  have len: "int (length (nodeClasses g)) = size_cap g" "int (length (edgeSourceSet g)) = size_cap g"
    "int (length (edgeSources g)) = size_cap g" "int (length (edgeWeights g)) = size_cap g"
    using assms by (auto simp: graph_wf_def)
  have eqs: "length (nodeClasses g) = nat (size_cap g)" "length (edgeSourceSet g) = nat (size_cap g)"
    "length (edgeSources g) = nat (size_cap g)" "length (edgeWeights g) = nat (size_cap g)"
    using len by linarith+
  have "ensureCapacity g m = g\<lparr> nodeClasses := nodeClasses g @ replicate (nat k - nat (size_cap g)) None,
            edgeSourceSet := edgeSourceSet g @ replicate (nat k - nat (size_cap g)) None,
            edgeSources := edgeSources g @ replicate (nat k - nat (size_cap g)) None,
            edgeWeights := edgeWeights g @ replicate (nat k - nat (size_cap g)) None,
            size_cap := k \<rparr>"
    using True k len
    by (simp add: ensureCapacity_def Let_def k_def[symmetric] copyOf_grow eqs)
  moreover have "int (nat k - nat (size_cap g)) = k - size_cap g"
    using k assms by (simp add: graph_wf_def)
  ultimately show ?thesis using k by blast
qed

lemma node_wf_cong:
  "nodes g' = nodes g \<Longrightarrow> slot (edgeSourceSet g') n = slot (edgeSourceSet g) n \<Longrightarrow>
   slot (edgeSources g') n = slot (edgeSources g) n \<Longrightarrow>
   slot (edgeWeights g') n = slot (edgeWeights g) n \<Longrightarrow> node_wf g' n = node_wf g n"
  by (simp add: node_wf_def)

lemma ensureCapacity_wf:
  assumes "graph_wf g" shows "graph_wf (ensureCapacity g m)"
proof -
  from ensureCapacity_cases[OF assms, of m] show ?thesis
  proof (elim disjE exE conjE)
    assume "ensureCapacity g m = g" then show ?thesis using assms by simp
  next
    fix k j
    assume k: "size_cap g < k" "int j = k - size_cap g"
      and eq: "ensureCapacity g m = g\<lparr> nodeClasses := nodeClasses g @ replicate j None,
            edgeSourceSet := edgeSourceSet g @ replicate j None,
            edgeSources := edgeSources g @ replicate j None,
            edgeWeights := edgeWeights g @ replicate j None,
            size_cap := k \<rparr>"
    have "node_wf (ensureCapacity g m) n = node_wf g n" for n
      unfolding eq by (rule node_wf_cong) simp_all
    then show ?thesis using assms k by (simp add: graph_wf_def eq)
  qed
qed

lemma ensureCapacity_nodes: "nodes (ensureCapacity g m) = nodes g"
  by (simp add: ensureCapacity_def Let_def)

lemma ensureCapacity_size: "graph_wf g \<Longrightarrow> m \<le> size_cap (ensureCapacity g m)"
  using ensureCapacity_cases[of g m] by auto

lemma ensureCapacity_adjw:
  assumes "graph_wf g" shows "adjw (ensureCapacity g m) u = adjw g u"
proof -
  from ensureCapacity_cases[OF assms, of m] show ?thesis
  proof (elim disjE exE conjE)
    assume "ensureCapacity g m = g" then show ?thesis by simp
  next
    fix k j
    assume eq: "ensureCapacity g m = g\<lparr> nodeClasses := nodeClasses g @ replicate j None,
            edgeSourceSet := edgeSourceSet g @ replicate j None,
            edgeSources := edgeSources g @ replicate j None,
            edgeWeights := edgeWeights g @ replicate j None,
            size_cap := k \<rparr>"
    show ?thesis unfolding eq by (simp add: adjw_def)
  qed
qed

lemma adjw_cong:
  "slot (edgeSources g') u = slot (edgeSources g) u \<Longrightarrow>
   slot (edgeWeights g') u = slot (edgeWeights g) u \<Longrightarrow> adjw g' u = adjw g u"
  by (simp add: adjw_def)

lemma node_wf_adjw:
  "node_wf g n \<Longrightarrow> n \<in> nodes g \<Longrightarrow>
   \<exists>L W. slot (edgeSourceSet g) n = Some (intValue ` set L) \<and>
         slot (edgeSources g) n = Some L \<and> slot (edgeWeights g) n = Some W \<and>
         length W = length L \<and> distinct (map intValue L) \<and>
         adjw g n = zip (map intValue L) W \<and> map fst (adjw g n) = map intValue L"
  by (auto simp: node_wf_def adjw_def)

lemma adjw_absent: "graph_wf g \<Longrightarrow> n \<notin> nodes g \<Longrightarrow> adjw g n = []"
  by (auto simp: graph_wf_def node_wf_def adjw_def split: option.splits dest!: spec[of _ n])

lemma nodes_in_range: "graph_wf g \<Longrightarrow> n \<in> nodes g \<Longrightarrow> 0 \<le> n \<and> n < size_cap g"
proof -
  assume wf: "graph_wf g" and n: "n \<in> nodes g"
  then obtain L where "slot (edgeSources g) n = Some L"
    by (auto simp: graph_wf_def node_wf_def dest!: spec[of _ n])
  from slot_Some_range[OF this] wf show ?thesis by (simp add: graph_wf_def)
qed

lemma addNode_props:
  assumes wf: "graph_wf g0" and ok: "addNode g0 nd = Inr g'"
  shows "graph_wf g'" and "nodes g' = insert (intValue nd) (nodes g0)"
    and "adjw g' u = adjw g0 u"
proof -
  define n where "n = intValue nd"
  define g where "g = ensureCapacity g0 (i32 (n + 1))"
  have wfg: "graph_wf g" unfolding g_def by (rule ensureCapacity_wf[OF wf])
  have ng: "nodes g = nodes g0" unfolding g_def by (rule ensureCapacity_nodes)
  have ag: "adjw g u = adjw g0 u" for u unfolding g_def by (rule ensureCapacity_adjw[OF wf])
  have n0: "0 \<le> n" using ok by (auto simp: addNode_def Let_def n_def split: if_splits)
  have "graph_wf g' \<and> nodes g' = insert n (nodes g0) \<and> adjw g' u = adjw g0 u"
  proof (cases "n \<in> nodes g")
    case True
    then have "g' = g" using ok n0
      by (auto simp: addNode_def Let_def n_def g_def split: if_splits)
    with wfg ng ag True show ?thesis by auto
  next
    case False
    from ok False n0 have rng: "n < int (length (edgeSourceSet g))" "n < int (length (edgeSources g))"
        "n < int (length (edgeWeights g))"
      and g': "g' = g\<lparr> nodes := insert n (nodes g),
                 edgeSourceSet := (edgeSourceSet g)[nat n := Some {}],
                 edgeSources := (edgeSources g)[nat n := Some []],
                 edgeWeights := (edgeWeights g)[nat n := Some []] \<rparr>"
      by (auto simp: addNode_def Let_def n_def[symmetric] g_def[symmetric] ebind_def aset_Inr_iff
               split: if_splits sum.splits)
    have nwf: "node_wf g' m" for m
    proof (cases "m = n")
      case True
      show ?thesis unfolding g' using True n0 rng
        by (auto simp: node_wf_def slot_update intro!: exI[of _ "[]"])
    next
      case neq: False
      have "node_wf g m" using wfg by (simp add: graph_wf_def)
      then show ?thesis unfolding g' using neq n0 rng
        by (auto simp: node_wf_def slot_update)
    qed
    have "adjw g n = []" using adjw_absent[OF wfg False] .
    then have "adjw g' u = adjw g u" unfolding g' using n0 rng
      by (auto simp: adjw_def slot_update)
    with nwf wfg ng ag show ?thesis by (simp add: graph_wf_def g')
  qed
  then show "graph_wf g'" and "nodes g' = insert (intValue nd) (nodes g0)"
    and "adjw g' u = adjw g0 u" by (simp_all add: n_def)
qed

lemma addHalf_props:
  assumes wf: "graph_wf g" and ok: "addHalf g a b w = Inr g'"
  shows "graph_wf g'" and "nodes g' = nodes g"
    and "adjw g' u =
           (if u = intValue a \<and> intValue b \<notin> fst ` set (adjw g (intValue a))
            then adjw g u @ [(intValue b, w)] else adjw g u)"
    and "intValue a \<in> nodes g"
proof -
  define n where "n = intValue a"
  from ok obtain S where S: "slot (edgeSourceSet g) n = Some S"
    and rS: "0 \<le> n" "n < int (length (edgeSourceSet g))"
    by (auto simp: addHalf_def ebind_def n_def aget_Inr_iff split: sum.splits option.splits)
  have nwf: "node_wf g n" using wf by (simp add: graph_wf_def)
  with S have nin: "n \<in> nodes g" by (auto simp: node_wf_def split: if_splits)
  from node_wf_adjw[OF nwf nin] S obtain L W where
    LW: "S = intValue ` set L" "slot (edgeSources g) n = Some L" "slot (edgeWeights g) n = Some W"
        "length W = length L" "distinct (map intValue L)" "adjw g n = zip (map intValue L) W"
        "map fst (adjw g n) = map intValue L"
    by auto
  have fs: "fst ` set (adjw g n) = S"
    using LW(7) by (metis LW(1) list.set_map)
  have rng: "n < int (length (edgeSources g))" "n < int (length (edgeWeights g))"
    using slot_Some_range[OF LW(2)] slot_Some_range[OF LW(3)] by auto
  have "graph_wf g' \<and> nodes g' = nodes g \<and>
        adjw g' u = (if u = n \<and> intValue b \<notin> fst ` set (adjw g n)
                     then adjw g u @ [(intValue b, w)] else adjw g u)"
  proof (cases "intValue b \<in> S")
    case True
    then have "g' = g" using ok S rS
      by (auto simp: addHalf_def ebind_def n_def[symmetric] aget_def slot_def split: if_splits)
    with wf True fs show ?thesis by simp
  next
    case False
    have agS: "aget (edgeSourceSet g) n = Inr (Some S)" using S rS by (simp add: aget_Inr_iff)
    have agL: "aget (edgeSources g) n = Inr (Some L)" using LW(2) rS rng by (simp add: aget_Inr_iff)
    have agW: "aget (edgeWeights g) n = Inr (Some W)" using LW(3) rS rng by (simp add: aget_Inr_iff)
    have g': "g' = g\<lparr> edgeSourceSet := (edgeSourceSet g)[nat n := Some (insert (intValue b) S)],
                 edgeSources := (edgeSources g)[nat n := Some (L @ [b])],
                 edgeWeights := (edgeWeights g)[nat n := Some (W @ [w])] \<rparr>"
      using ok False agS agL agW rS rng
      by (simp add: addHalf_def ebind_def n_def[symmetric] aset_def)
    have nwf': "node_wf g' m" for m
    proof (cases "m = n")
      case True
      show ?thesis unfolding g' using True rS rng nin LW False
        by (auto simp: node_wf_def slot_update intro!: exI[of _ "L @ [b]"])
    next
      case neq: False
      have "node_wf g m" using wf by (simp add: graph_wf_def)
      then show ?thesis unfolding g' using neq rS rng
        by (auto simp: node_wf_def slot_update)
    qed
    have a1: "adjw g' n = adjw g n @ [(intValue b, w)]"
      unfolding g' using rS rng LW by (simp add: adjw_def slot_update)
    have a2: "u \<noteq> n \<Longrightarrow> adjw g' u = adjw g u"
      unfolding g' using rS rng by (simp add: adjw_def slot_update)
    from nwf' wf a1 a2 False fs show ?thesis by (auto simp: graph_wf_def g')
  qed
  then show "graph_wf g'" and "nodes g' = nodes g"
    and "adjw g' u =
           (if u = intValue a \<and> intValue b \<notin> fst ` set (adjw g (intValue a))
            then adjw g u @ [(intValue b, w)] else adjw g u)"
    and "intValue a \<in> nodes g" using nin by (simp_all add: n_def)
qed

lemma adj_sym_nbrs:
  assumes "adj_sym adj" shows "(v \<in> fst ` set (adj u)) = (u \<in> fst ` set (adj v))"
proof -
  have "(v \<in> fst ` set (adj u)) = (\<exists>w. (v, w) \<in> set (adj u))" by force
  also have "\<dots> = (\<exists>w. (u, w) \<in> set (adj v))" using assms by (simp add: adj_sym_def)
  also have "\<dots> = (u \<in> fst ` set (adj v))" by force
  finally show ?thesis .
qed

lemma add_half_adj_sym:
  assumes "adj_sym adj"
  shows "adj_sym (add_half_adj (add_half_adj adj x y w) y x w)"
proof (cases "x = y")
  case True
  then show ?thesis using assms
    by (auto simp: adj_sym_def add_half_adj_def)
next
  case False
  have nb: "(y \<in> fst ` set (adj x)) = (x \<in> fst ` set (adj y))"
    by (rule adj_sym_nbrs[OF assms])
  show ?thesis
  proof (cases "y \<in> fst ` set (adj x)")
    case True
    with nb False have "add_half_adj (add_half_adj adj x y w) y x w = adj"
      by (auto simp: add_half_adj_def fun_eq_iff)
    with assms show ?thesis by simp
  next
    case nin: False
    with nb False have eq: "add_half_adj (add_half_adj adj x y w) y x w =
        (\<lambda>u. if u = x then adj x @ [(y, w)] else if u = y then adj y @ [(x, w)] else adj u)"
      by (auto simp: add_half_adj_def fun_eq_iff)
    show ?thesis unfolding eq using assms False
      by (auto simp: adj_sym_def)
  qed
qed

lemma addEdge_props:
  assumes wf: "graph_wf g" and ok: "addEdge g a b w = Inr g'"
  shows "graph_wf g'"
    and "a \<noteq> b \<Longrightarrow> adjw g' = add_half_adj (add_half_adj (adjw g) (intValue a) (intValue b) w)
                                    (intValue b) (intValue a) w"
    and "a = b \<Longrightarrow> g' = g"
proof -
  show "a = b \<Longrightarrow> g' = g" using ok by (simp add: addEdge_def)
  have "graph_wf g' \<and> (a \<noteq> b \<longrightarrow> adjw g' = add_half_adj (add_half_adj (adjw g) (intValue a) (intValue b) w)
                                    (intValue b) (intValue a) w)"
  proof (cases "a = b")
    case True
    then show ?thesis using ok wf by (simp add: addEdge_def)
  next
    case False
    from ok False obtain g1 g2 g3 where
      s1: "addNode g a = Inr g1" and s2: "addNode g1 b = Inr g2"
      and s3: "addHalf g2 a b w = Inr g3" and s4: "addHalf g3 b a w = Inr g'"
      by (auto simp: addEdge_def ebind_def split: sum.splits)
    note p1 = addNode_props[OF wf s1]
    note p2 = addNode_props[OF p1(1) s2]
    note p3 = addHalf_props[OF p2(1) s3]
    note p4 = addHalf_props[OF p3(1) s4]
    have e2: "adjw g2 = adjw g" using p1(3) p2(3) by (simp add: fun_eq_iff)
    have e3: "adjw g3 = add_half_adj (adjw g) (intValue a) (intValue b) w"
      using p3(3) by (simp add: fun_eq_iff add_half_adj_def e2)
    have e4: "adjw g' = add_half_adj (adjw g3) (intValue b) (intValue a) w"
      using p4(3) by (simp add: fun_eq_iff add_half_adj_def)
    from p4(1) e3 e4 False show ?thesis by simp
  qed
  then show "graph_wf g'"
    and "a \<noteq> b \<Longrightarrow> adjw g' = add_half_adj (add_half_adj (adjw g) (intValue a) (intValue b) w)
                                    (intValue b) (intValue a) w" by simp_all
qed

lemma addEdge_inv:
  assumes "graph_wf g \<and> adj_sym (adjw g)" and "addEdge g a b w = Inr g'"
  shows "graph_wf g' \<and> adj_sym (adjw g')"
proof (cases "a = b")
  case True
  with addEdge_props(3)[OF _ assms(2)] assms show ?thesis by simp
next
  case False
  from addEdge_props(1,2)[OF _ assms(2)] assms False add_half_adj_sym[of "adjw g"]
  show ?thesis by simp
qed

lemma addEdges_inv:
  "graph_wf g \<and> adj_sym (adjw g) \<Longrightarrow> addEdges g es = Inr g' \<Longrightarrow> graph_wf g' \<and> adj_sym (adjw g')"
proof (induction es arbitrary: g)
  case Nil then show ?case by simp
next
  case (Cons e es)
  obtain a b w where e: "e = (a, b, w)" by (cases e)
  from Cons.prems(2) obtain g1 where g1: "addEdge g a b w = Inr g1" and r: "addEdges g1 es = Inr g'"
    by (auto simp: e ebind_def split: sum.splits)
  from Cons.IH[OF addEdge_inv[OF Cons.prems(1) g1] r] show ?case .
qed

lemma i32_small: "- 2147483648 \<le> x \<Longrightarrow> x < 2147483648 \<Longrightarrow> i32 x = x"
  by (simp add: i32_def)

lemma sortEdges_loop_inv:
  "sortEdges_loop ns g = Inr g' \<Longrightarrow> distinct ns \<Longrightarrow> \<forall>n \<in> set ns. n < length (edgeSources g) \<Longrightarrow>
   length (edgeSources g') = length (edgeSources g) \<and>
   length (edgeWeights g') = length (edgeWeights g) \<and>
   (\<forall>i. if i \<in> set ns then sorted_slot g g' i else same_slot g g' i)"
proof (induction ns arbitrary: g)
  case Nil
  then show ?case by (simp add: same_slot_def)
next
  case (Cons n rest)
  show ?case
  proof (cases "edgeSources g ! n")
    case None
    with Cons.prems have r: "sortEdges_loop rest g = Inr g'" by simp
    from Cons.IH[OF r] Cons.prems(2,3)
    have ih: "length (edgeSources g') = length (edgeSources g)"
      "length (edgeWeights g') = length (edgeWeights g)"
      "\<And>i. if i \<in> set rest then sorted_slot g g' i else same_slot g g' i"
      by auto
    have "sorted_slot g g' n" using ih(3)[of n] Cons.prems(2) None
      by (simp add: sorted_slot_def same_slot_def)
    with ih show ?thesis by auto
  next
    case (Some srcs)
    define idx where "idx ws = sort_key (\<lambda>k. ws ! k) [0..<length srcs]" for ws :: "'a list"
    from Cons.prems(1) Some obtain ws where
      nW: "n < length (edgeWeights g)" and W: "edgeWeights g ! n = Some ws"
      and len: "length srcs \<le> length ws"
      and r: "sortEdges_loop rest
               (g\<lparr> edgeSources := (edgeSources g)[n := Some (map (\<lambda>k. srcs ! k) (idx ws))],
                   edgeWeights := (edgeWeights g)[n := Some (map (\<lambda>k. ws ! k) (idx ws))] \<rparr>) = Inr g'"
      by (auto simp: ebind_def aget_def aset_def sort_node_def Let_def idx_def
               split: sum.splits option.splits if_splits)
    define g1 where "g1 = g\<lparr> edgeSources := (edgeSources g)[n := Some (map (\<lambda>k. srcs ! k) (idx ws))],
                   edgeWeights := (edgeWeights g)[n := Some (map (\<lambda>k. ws ! k) (idx ws))] \<rparr>"
    have nS: "n < length (edgeSources g)" using Cons.prems(3) by simp
    have nr: "n \<notin> set rest" using Cons.prems(2) by simp
    have l1: "length (edgeSources g1) = length (edgeSources g)"
         "length (edgeWeights g1) = length (edgeWeights g)" by (simp_all add: g1_def)
    have r1: "sortEdges_loop rest g1 = Inr g'" using r by (simp add: g1_def)
    have d1: "distinct rest" using Cons.prems(2) by simp
    have b1: "\<forall>n \<in> set rest. n < length (edgeSources g1)" using Cons.prems(3) l1 by simp
    from Cons.IH[OF r1 d1 b1]
    have ih: "length (edgeSources g') = length (edgeSources g1)"
      "length (edgeWeights g') = length (edgeWeights g1)"
      "\<And>i. if i \<in> set rest then sorted_slot g1 g' i else same_slot g1 g' i"
      by blast+
    have a: "sorted_slot g g' n"
      using ih(3)[of n] nr Some W len nS nW
      by (simp add: sorted_slot_def same_slot_def g1_def idx_def)
    have b: "i \<noteq> n \<Longrightarrow> sorted_slot g1 g' i \<Longrightarrow> sorted_slot g g' i" for i
      by (auto simp: sorted_slot_def g1_def split: option.splits)
    have c: "i \<noteq> n \<Longrightarrow> same_slot g1 g' i \<Longrightarrow> same_slot g g' i" for i
      by (simp add: same_slot_def g1_def)
    have "if i \<in> set (n # rest) then sorted_slot g g' i else same_slot g g' i" for i
      using a b[of i] c[of i] ih(3)[of i] nr by (cases "i = n") auto
    with ih(1,2) l1 show ?thesis by simp
  qed
qed

lemma sortEdges_slots:
  assumes "sortEdges g = Inr g'"
  shows "length (edgeSources g') = length (edgeSources g)"
    and "length (edgeWeights g') = length (edgeWeights g)"
    and "i < length (edgeSources g) \<Longrightarrow> sorted_slot g g' i"
  using sortEdges_loop_inv[OF assms[unfolded sortEdges_def]] by auto

lemma zip_nth_map:
  "length xs \<le> length ys \<Longrightarrow> set idx \<subseteq> {0..<length xs} \<Longrightarrow>
   zip (map (\<lambda>k. xs ! k) idx) (map (\<lambda>k. ys ! k) idx) = map (\<lambda>k. zip xs ys ! k) idx"
  by (induction idx) auto

lemma mset_map_nth_upt: "mset (map (\<lambda>k. zs ! k) [0..<length zs]) = mset zs"
  by (simp add: map_nth)

lemma sort_node_result:
  assumes "length srcs \<le> length ws"
  defines "idx \<equiv> sort_key (\<lambda>k. ws ! k) [0..<length srcs]"
  shows "mset (zip (map (\<lambda>k. srcs ! k) idx) (map (\<lambda>k. ws ! k) idx)) = mset (zip srcs ws)"
    and "sorted (map (\<lambda>k. ws ! k) idx)"
proof -
  have s: "set idx \<subseteq> {0..<length srcs}" by (auto simp: idx_def)
  have m: "mset idx = mset [0..<length srcs]" by (simp add: idx_def)
  have "mset (map (\<lambda>k. zip srcs ws ! k) idx) = image_mset (\<lambda>k. zip srcs ws ! k) (mset idx)"
    by simp
  also have "\<dots> = mset (map (\<lambda>k. zip srcs ws ! k) [0..<length (zip srcs ws)])"
    using assms(1) by (simp add: m min_def)
  also have "\<dots> = mset (zip srcs ws)" by (rule mset_map_nth_upt)
  finally show "mset (zip (map (\<lambda>k. srcs ! k) idx) (map (\<lambda>k. ws ! k) idx)) = mset (zip srcs ws)"
    using zip_nth_map[OF assms(1) s] by simp
  show "sorted (map (\<lambda>k. ws ! k) idx)" unfolding idx_def by (rule sorted_sort_key)
qed

lemma getEdges_Inr:
  assumes "getEdges g v = Inr es"
  shows "0 \<le> intValue v \<and> nat (intValue v) < length (edgeSources g) \<and>
    (case edgeSources g ! nat (intValue v) of None \<Rightarrow> es = []
     | Some srcs \<Rightarrow> (srcs = [] \<and> es = []) \<or>
         (\<exists>ws. edgeWeights g ! nat (intValue v) = Some ws \<and> es = zip srcs ws))"
  using assms
  by (auto simp: getEdges_def ebind_def aget_def split: if_splits option.splits sum.splits)

lemma sortEdges_loop_total:
  "distinct ns \<Longrightarrow> \<forall>n \<in> set ns. slots_ok g n \<Longrightarrow> \<exists>g'. sortEdges_loop ns g = Inr g'"
proof (induction ns arbitrary: g)
  case Nil show ?case by simp
next
  case (Cons n rest)
  show ?case
  proof (cases "edgeSources g ! n")
    case None
    with Cons show ?thesis by simp
  next
    case (Some srcs)
    with Cons.prems(2) obtain ws where iw: "n < length (edgeWeights g)"
      and W: "edgeWeights g ! n = Some ws" and len: "length srcs \<le> length ws"
      by (auto simp: slots_ok_def)
    define g1 where "g1 = g\<lparr> edgeSources := (edgeSources g)[n := Some (map (\<lambda>k. srcs ! k) (sort_key (\<lambda>k. ws ! k) [0..<length srcs]))],
                   edgeWeights := (edgeWeights g)[n := Some (map (\<lambda>k. ws ! k) (sort_key (\<lambda>k. ws ! k) [0..<length srcs]))] \<rparr>"
    have eq: "sortEdges_loop (n # rest) g = sortEdges_loop rest g1"
      using Some iw W len
      by (simp add: ebind_def aget_def aset_def sort_node_def Let_def g1_def)
    have "slots_ok g1 m" if "m \<in> set rest" for m
    proof -
      have "m \<noteq> n" using that Cons.prems(1) by auto
      moreover have "slots_ok g m" using that Cons.prems(2) by simp
      ultimately show ?thesis by (auto simp: slots_ok_def g1_def split: option.splits)
    qed
    then have "\<forall>m \<in> set rest. slots_ok g1 m" by blast
    from Cons.IH[OF _ this] Cons.prems(1) eq show ?thesis by simp
  qed
qed

lemma sortEdges_total:
  assumes "graph_wf g" shows "\<exists>g'. sortEdges g = Inr g'"
proof -
  have "slots_ok g n" if "n < length (edgeSources g)" for n
  proof -
    have "node_wf g (int n)" using assms by (simp add: graph_wf_def)
    moreover have "n < length (edgeWeights g)" "n < length (edgeSourceSet g)"
      using assms that by (auto simp: graph_wf_def)
    ultimately show ?thesis using that
      by (auto simp: node_wf_def slots_ok_def slot_def split: if_splits option.splits)
  qed
  then show ?thesis unfolding sortEdges_def
    by (intro sortEdges_loop_total) auto
qed

lemma getNeighbors_adjw:
  assumes wf: "graph_wf g" and gn: "getNeighbors g u = Inr nu"
  shows "map intValue nu = map fst (adjw g (intValue u))"
proof -
  define n where "n = intValue u"
  have nwf: "node_wf g n" using wf by (simp add: graph_wf_def)
  show ?thesis
  proof (cases "n \<in> nodes g")
    case True
    from node_wf_adjw[OF nwf True] obtain L where
      L: "slot (edgeSources g) n = Some L" "map fst (adjw g n) = map intValue L" by auto
    from gn L(1) have "nu = L"
      by (auto simp: getNeighbors_def ebind_def n_def[symmetric] aget_Inr_iff
               split: sum.splits option.splits)
    with L(2) show ?thesis by (simp add: n_def)
  next
    case False
    with nwf have "slot (edgeSources g) n = None" by (simp add: node_wf_def)
    with gn have "nu = []"
      by (auto simp: getNeighbors_def ebind_def n_def[symmetric] aget_Inr_iff
               split: sum.splits option.splits)
    with adjw_absent[OF wf False] show ?thesis by (simp add: n_def)
  qed
qed

lemma getNeighbors_present:
  assumes wf: "graph_wf g" and "intValue u \<in> nodes g"
  shows "\<exists>nu. getNeighbors g u = Inr nu"
proof -
  have nwf: "node_wf g (intValue u)" using wf by (simp add: graph_wf_def)
  from node_wf_adjw[OF nwf assms(2)] obtain L where
    L: "slot (edgeSources g) (intValue u) = Some L" by auto
  from slot_Some_range[OF L] L show ?thesis
    by (simp add: getNeighbors_def ebind_def aget_def slot_def)
qed

lemma adjw_nonempty_present: "graph_wf g \<Longrightarrow> adjw g n \<noteq> [] \<Longrightarrow> n \<in> nodes g"
  using adjw_absent by blast

lemma scan_weight_found:
  "length ws = i + length es \<Longrightarrow> distinct (map intValue es) \<Longrightarrow>
   (t, w) \<in> set (zip (map intValue es) (drop i ws)) \<Longrightarrow> scan_weight es i (Some ws) t = Inr w"
proof (induction es arbitrary: i)
  case Nil then show ?case by simp
next
  case (Cons e es)
  have il: "i < length ws" using Cons.prems(1) by simp
  then have d: "drop i ws = ws ! i # drop (Suc i) ws" by (simp add: Cons_nth_drop_Suc)
  show ?case
  proof (cases "intValue e = t")
    case True
    have "t \<notin> set (map intValue es)" using Cons.prems(2) True by auto
    then have "(t, w) \<notin> set (zip (map intValue es) (drop (Suc i) ws))"
      by (meson set_zip_leftD)
    with Cons.prems(3) d True have "w = ws ! i" by auto
    with True il show ?thesis by simp
  next
    case False
    with Cons.prems(3) d have "(t, w) \<in> set (zip (map intValue es) (drop (Suc i) ws))" by auto
    from Cons.IH[OF _ _ this] Cons.prems(1,2) False show ?thesis by simp
  qed
qed

lemma scan_weight_absent:
  "t \<notin> intValue ` set es \<Longrightarrow> scan_weight es i ws t = Inr 0"
  by (induction es arbitrary: i) auto

lemma getEdgeWeight_adjw:
  assumes wf: "graph_wf g" and m: "(intValue v, w) \<in> set (adjw g (intValue u))"
  shows "getEdgeWeight g u v = Inr w"
proof -
  define n where "n = intValue u"
  have nwf: "node_wf g n" using wf by (simp add: graph_wf_def)
  have "adjw g n \<noteq> []" using m by (auto simp: n_def)
  then have nin: "n \<in> nodes g" by (rule adjw_nonempty_present[OF wf])
  from node_wf_adjw[OF nwf nin] obtain L W where
    LW: "slot (edgeSources g) n = Some L" "slot (edgeWeights g) n = Some W"
        "length W = length L" "distinct (map intValue L)" "adjw g n = zip (map intValue L) W"
    by auto
  have "scan_weight L 0 (Some W) (intValue v) = Inr w"
    by (rule scan_weight_found) (use LW m in \<open>auto simp: n_def\<close>)
  then show ?thesis
    using LW(1,2) slot_Some_range[OF LW(1)] slot_Some_range[OF LW(2)]
    by (simp add: getEdgeWeight_def ebind_def aget_def slot_def n_def[symmetric])
qed

lemma built_inv: "built g \<Longrightarrow> graph_wf g \<and> adj_sym (adjw g)"
proof -
  assume "built g"
  then obtain n g0 es where g0: "new_Graph n = Inr g0" and es: "addEdges g0 es = Inr g"
    by (auto simp: built_def)
  have "graph_wf g0 \<and> adj_sym (adjw g0)"
    using new_Graph_wf[OF g0] new_Graph_adjw[OF g0] by (simp add: adj_sym_def)
  from addEdges_inv[OF this es] show ?thesis .
qed

lemma i32_le: "0 \<le> x \<Longrightarrow> i32 x \<le> x"
proof -
  assume "0 \<le> x"
  then have "(x + 2147483648) mod 4294967296 \<le> x + 2147483648"
    by (intro zmod_le_nonneg_dividend) simp
  then show ?thesis by (simp add: i32_def)
qed

lemma addNode_present:
  assumes wf: "graph_wf g" and n: "intValue nd \<in> nodes g"
  shows "addNode g nd = Inr g"
proof -
  from nodes_in_range[OF wf n] have r: "0 \<le> intValue nd" "intValue nd < size_cap g" by auto
  have "i32 (intValue nd + 1) \<le> size_cap g" using i32_le[of "intValue nd + 1"] r by simp
  then have "ensureCapacity g (i32 (intValue nd + 1)) = g" by (simp add: ensureCapacity_def)
  with n r show ?thesis by (simp add: addNode_def Let_def)
qed

lemma addHalf_present:
  assumes wf: "graph_wf g" and a: "intValue a \<in> nodes g"
    and b: "intValue b \<in> fst ` set (adjw g (intValue a))"
  shows "addHalf g a b w = Inr g"
proof -
  have nwf: "node_wf g (intValue a)" using wf by (simp add: graph_wf_def)
  from node_wf_adjw[OF nwf a] obtain L where
    L: "slot (edgeSourceSet g) (intValue a) = Some (intValue ` set L)"
       "map fst (adjw g (intValue a)) = map intValue L" by auto
  have "intValue b \<in> intValue ` set L" using b L(2) by (metis list.set_map)
  with L(1) slot_Some_range[OF L(1)] show ?thesis
    by (simp add: addHalf_def ebind_def aget_def slot_def)
qed

lemma addNode_total:
  assumes wf: "graph_wf g" and r: "0 \<le> intValue nd" "intValue nd < 2147483647"
  shows "\<exists>g'. addNode g nd = Inr g'"
proof -
  define n where "n = intValue nd"
  define g1 where "g1 = ensureCapacity g (i32 (n + 1))"
  have "i32 (n + 1) = n + 1" using r by (simp add: i32_def n_def)
  then have "n + 1 \<le> size_cap g1" using ensureCapacity_size[OF wf, of "i32 (n + 1)"]
    by (simp add: g1_def)
  moreover have "graph_wf g1" unfolding g1_def by (rule ensureCapacity_wf[OF wf])
  ultimately have "n < int (length (edgeSourceSet g1))" "n < int (length (edgeSources g1))"
    "n < int (length (edgeWeights g1))" by (auto simp: graph_wf_def)
  then show ?thesis using r
    by (simp add: addNode_def Let_def n_def[symmetric] g1_def[symmetric] ebind_def aset_def)
qed

lemma addHalf_total:
  assumes wf: "graph_wf g" and a: "intValue a \<in> nodes g"
  shows "\<exists>g'. addHalf g a b w = Inr g'"
proof -
  have nwf: "node_wf g (intValue a)" using wf by (simp add: graph_wf_def)
  from node_wf_adjw[OF nwf a] obtain L W where
    L: "slot (edgeSourceSet g) (intValue a) = Some (intValue ` set L)"
       "slot (edgeSources g) (intValue a) = Some L" "slot (edgeWeights g) (intValue a) = Some W"
    by auto
  from L slot_Some_range[OF L(1)] slot_Some_range[OF L(2)] slot_Some_range[OF L(3)]
  show ?thesis
    by (simp add: addHalf_def ebind_def aget_def aset_def slot_def)
qed

lemma addEdge_total:
  assumes wf: "graph_wf g" and "0 \<le> intValue a" "intValue a < 2147483647"
    and "0 \<le> intValue b" "intValue b < 2147483647"
  shows "\<exists>g'. addEdge g a b w = Inr g'"
proof (cases "a = b")
  case True then show ?thesis by (simp add: addEdge_def)
next
  case False
  from addNode_total[OF wf assms(2,3)] obtain g1 where g1: "addNode g a = Inr g1" by blast
  note p1 = addNode_props[OF wf g1]
  from addNode_total[OF p1(1) assms(4,5)] obtain g2 where g2: "addNode g1 b = Inr g2" by blast
  note p2 = addNode_props[OF p1(1) g2]
  have "intValue a \<in> nodes g2" using p1(2) p2(2) by simp
  from addHalf_total[OF p2(1) this] obtain g3 where g3: "addHalf g2 a b w = Inr g3" by blast
  note p3 = addHalf_props[OF p2(1) g3]
  have "intValue b \<in> nodes g3" using p2(2) p3(2) by simp
  from addHalf_total[OF p3(1) this] obtain g4 where g4: "addHalf g3 b a w = Inr g4" by blast
  from False g1 g2 g3 g4 show ?thesis by (simp add: addEdge_def ebind_def)
qed

lemma filter_value_once:
  "distinct (map f xs) \<Longrightarrow> y \<in> f ` set xs \<Longrightarrow> length (filter (\<lambda>x. f x = y) xs) = 1"
proof (induction xs)
  case Nil then show ?case by simp
next
  case (Cons x xs)
  show ?case
  proof (cases "f x = y")
    case True
    then have "y \<notin> f ` set xs" using Cons.prems(1) by auto
    then have "filter (\<lambda>x. f x = y) xs = []" by (auto simp: filter_empty_conv)
    with True show ?thesis by simp
  next
    case False
    with Cons show ?thesis by auto
  qed
qed

lemma sortEdges_getEdges:
  assumes s: "sortEdges g = Inr g'" and e: "getEdges g v = Inr es"
  shows "\<exists>es'. getEdges g' v = Inr es' \<and> sorted (map snd es') \<and> mset es' = mset es"
proof -
  define i where "i = nat (intValue v)"
  from getEdges_Inr[OF e] have v0: "0 \<le> intValue v" and il: "i < length (edgeSources g)"
    by (auto simp: i_def)
  note sl = sortEdges_slots[OF s]
  have ss: "sorted_slot g g' i" by (rule sl(3)[OF il])
  have il': "intValue v < int (length (edgeSources g'))" using il v0 sl(1) by (simp add: i_def)
  show ?thesis
  proof (cases "edgeSources g ! i")
    case None
    with ss have "edgeSources g' ! i = None" by (simp add: sorted_slot_def)
    then have "getEdges g' v = Inr []" using v0 il'
      by (simp add: getEdges_def ebind_def aget_def i_def)
    moreover have "es = []" using getEdges_Inr[OF e] None by (simp add: i_def)
    ultimately show ?thesis by simp
  next
    case (Some srcs)
    with ss obtain ws where iw: "i < length (edgeWeights g)" and W: "edgeWeights g ! i = Some ws"
      and len: "length srcs \<le> length ws"
      and S': "edgeSources g' ! i = Some (map (\<lambda>k. srcs ! k) (sort_key (\<lambda>k. ws ! k) [0..<length srcs]))"
      and W': "edgeWeights g' ! i = Some (map (\<lambda>k. ws ! k) (sort_key (\<lambda>k. ws ! k) [0..<length srcs]))"
      by (auto simp: sorted_slot_def)
    have es: "es = zip srcs ws" using e Some W v0 il iw len
      by (auto simp: getEdges_def ebind_def aget_def i_def[symmetric] split: if_splits)
    have iw': "intValue v < int (length (edgeWeights g'))" using iw v0 sl(2) by (simp add: i_def)
    have "getEdges g' v = Inr (zip (map (\<lambda>k. srcs ! k) (sort_key (\<lambda>k. ws ! k) [0..<length srcs]))
                                (map (\<lambda>k. ws ! k) (sort_key (\<lambda>k. ws ! k) [0..<length srcs])))"
      using S' W' v0 il' iw'
      by (simp add: getEdges_def ebind_def aget_def i_def[symmetric])
    with sort_node_result[OF len] es show ?thesis by simp
  qed
qed

section \<open>Correctness and termination of argpartition\<close>

text \<open>
  \<open>valid s a lo hi\<close>: the positions \<open>lo..hi\<close> lie in \<open>a\<close> and hold indices of
  \<open>s\<close>. \<open>K s a i\<close> is the score at position \<open>i\<close>. \<open>part_post\<close> is what one
  run of the inner loop establishes, \<open>ap_inv\<close> the invariant of the outer loop and
  \<open>ap_post\<close> its result. \<open>rotm\<close> counts the scores after the first one of
  \<open>lo..hi\<close> that come before the first occurrence of the largest score: a pass that
  moves neither bound rotates the range by one position and makes this number smaller.
\<close>

definition valid :: "'a list \<Rightarrow> int list \<Rightarrow> int \<Rightarrow> int \<Rightarrow> bool" where
  "valid s a lo hi =
     (0 \<le> lo \<and> hi < int (length a) \<and>
      (\<forall>i. lo \<le> i \<and> i \<le> hi \<longrightarrow> 0 \<le> a ! nat i \<and> a ! nat i < int (length s)))"

definition K :: "'a list \<Rightarrow> int list \<Rightarrow> int \<Rightarrow> 'a" where
  "K s a i = s ! nat (a ! nat i)"

definition swp :: "int list \<Rightarrow> int \<Rightarrow> int \<Rightarrow> int list" where
  "swp a r w = a[nat w := a ! nat r, nat r := a ! nat w]"

definition part_post :: "'a::linorder list \<Rightarrow> 'a \<Rightarrow> int list \<Rightarrow> int \<Rightarrow> int \<Rightarrow> int list \<Rightarrow> int \<Rightarrow> bool" where
  "part_post s mid a r w a' p =
     (r \<le> p \<and> p \<le> w \<and> length a' = length a \<and> mset a' = mset a \<and> valid s a' r w \<and>
      (\<forall>i. 0 \<le> i \<and> (i < r \<or> w < i) \<longrightarrow> a' ! nat i = a ! nat i) \<and>
      (\<forall>i. r \<le> i \<and> i < p \<longrightarrow> mid < K s a' i) \<and>
      (\<forall>i. p < i \<and> i \<le> w \<longrightarrow> K s a' i \<le> mid))"

definition keys :: "'a list \<Rightarrow> int list \<Rightarrow> int \<Rightarrow> int \<Rightarrow> 'a list" where
  "keys s a lo hi = map (K s a) [lo..hi]"

definition rotm :: "'a::linorder list \<Rightarrow> int list \<Rightarrow> int \<Rightarrow> int \<Rightarrow> nat" where
  "rotm s a lo hi =
     length (takeWhile (\<lambda>x. x \<noteq> Max (set (keys s a lo hi))) (tl (keys s a lo hi)))"

definition ap_inv :: "'a::linorder list \<Rightarrow> int \<Rightarrow> int \<Rightarrow> int list \<Rightarrow> int \<Rightarrow> int \<Rightarrow> bool" where
  "ap_inv s k n a lo hi =
     (valid s a lo hi \<and> hi < n \<and>
      (\<forall>i j. 0 \<le> i \<and> i < lo \<and> lo \<le> j \<and> j < n \<longrightarrow> K s a j \<le> K s a i) \<and>
      (\<forall>i j. 0 \<le> i \<and> i \<le> hi \<and> hi < j \<and> j < n \<longrightarrow> K s a j \<le> K s a i) \<and>
      (0 \<le> k \<longrightarrow> lo \<le> k) \<and> (k < n \<longrightarrow> k \<le> hi))"

definition ap_post :: "'a::linorder list \<Rightarrow> int \<Rightarrow> int \<Rightarrow> int list \<Rightarrow> int list \<Rightarrow> bool" where
  "ap_post s k n a a' =
     (length a' = length a \<and> mset a' = mset a \<and>
      (\<forall>i. n \<le> i \<longrightarrow> a' ! nat i = a ! nat i) \<and>
      (\<forall>i j. 0 \<le> i \<and> i < k \<and> k \<le> j \<and> j < n \<longrightarrow> K s a' j \<le> K s a' i))"

lemma key_valid: "valid s a lo hi \<Longrightarrow> lo \<le> i \<Longrightarrow> i \<le> hi \<Longrightarrow> key s a i = Some (K s a i)"
  by (auto simp: valid_def key_def rd_def K_def)

lemma swap_valid: "valid s a r w \<Longrightarrow> r \<le> w \<Longrightarrow> swap a r w = Some (swp a r w)"
  by (auto simp: valid_def swap_def rd_def swp_def)

lemma swp_length [simp]: "length (swp a r w) = length a"
  by (simp add: swp_def)

lemma swp_mset: "valid s a r w \<Longrightarrow> r \<le> w \<Longrightarrow> mset (swp a r w) = mset a"
  unfolding swp_def valid_def
  by (intro mset_swap) auto

lemma swp_nth:
  "valid s a r w \<Longrightarrow> r \<le> w \<Longrightarrow> 0 \<le> i \<Longrightarrow>
   swp a r w ! nat i = (if i = r then a ! nat w else if i = w then a ! nat r else a ! nat i)"
  by (auto simp: swp_def valid_def nth_list_update)

lemma valid_swp: "valid s a r w \<Longrightarrow> r \<le> w \<Longrightarrow> valid s (swp a r w) r w"
  unfolding valid_def
  by (auto simp: swp_def nth_list_update)

lemma valid_sub: "valid s a lo hi \<Longrightarrow> lo \<le> lo' \<Longrightarrow> hi' \<le> hi \<Longrightarrow> valid s a lo' hi'"
  by (auto simp: valid_def)

lemma K_swp:
  "valid s a r w \<Longrightarrow> r \<le> w \<Longrightarrow> 0 \<le> i \<Longrightarrow>
   K s (swp a r w) i = (if i = r then K s a w else if i = w then K s a r else K s a i)"
  by (simp add: K_def swp_nth)

lemma partition_loop_step_swap:
  "valid s a r w \<Longrightarrow> r < w \<Longrightarrow> K s a r \<le> mid \<Longrightarrow>
   partition_loop s mid a r w = partition_loop s mid (swp a r w) r (w - 1)"
  by (subst partition_loop.simps) (simp add: key_valid[of s a r w] swap_valid)

lemma partition_loop_step_keep:
  "valid s a r w \<Longrightarrow> r < w \<Longrightarrow> \<not> K s a r \<le> mid \<Longrightarrow>
   partition_loop s mid a r w = partition_loop s mid a (r + 1) w"
  by (subst partition_loop.simps) (simp add: key_valid[of s a r w])

lemma partition_loop_done: "\<not> r < w \<Longrightarrow> partition_loop s mid a r w = Some (a, r)"
  by (subst partition_loop.simps) simp

lemma partition_loop_post:
  "valid s a r w \<Longrightarrow> r \<le> w \<Longrightarrow>
   \<exists>a' p. partition_loop s mid a r w = Some (a', p) \<and> part_post s mid a r w a' p"
proof (induction "nat (w - r)" arbitrary: a r w rule: less_induct)
  case less
  show ?case
  proof (cases "r < w")
    case False
    with less.prems have "r = w" by simp
    with less.prems show ?thesis
      by (auto simp: partition_loop_done part_post_def)
  next
    case rw: True
    have r0: "0 \<le> r" and wl: "w < int (length a)" using less.prems by (auto simp: valid_def)
    show ?thesis
    proof (cases "K s a r \<le> mid")
      case True
      define a1 where "a1 = swp a r w"
      have v1: "valid s a1 r w" unfolding a1_def by (rule valid_swp) (use less.prems in auto)
      then have v1': "valid s a1 r (w - 1)" by (rule valid_sub) auto
      have "nat (w - 1 - r) < nat (w - r)" using rw by simp
      from less.hyps[OF this v1'] rw obtain a' p where
        res: "partition_loop s mid a1 r (w - 1) = Some (a', p)"
        and post: "part_post s mid a1 r (w - 1) a' p" by auto
      have eq: "partition_loop s mid a r w = Some (a', p)"
        using partition_loop_step_swap[OF less.prems(1) rw True] res by (simp add: a1_def)
      have nth1: "a1 ! nat i = (if i = r then a ! nat w else if i = w then a ! nat r else a ! nat i)"
        if "0 \<le> i" for i
        unfolding a1_def using swp_nth[OF less.prems(1) _ that] rw by simp
      have aw: "a' ! nat w = a ! nat r"
        using post nth1[of w] r0 rw by (auto simp: part_post_def)
      have out: "a' ! nat i = a ! nat i" if "0 \<le> i" "i < r \<or> w < i" for i
      proof -
        have "a' ! nat i = a1 ! nat i" using post that by (auto simp: part_post_def)
        with nth1[OF that(1)] that(2) rw show ?thesis by auto
      qed
      have v': "valid s a' r w"
      proof -
        have a: "valid s a' r (w - 1)" using post by (simp add: part_post_def)
        have len: "length a' = length a" using post by (simp add: part_post_def a1_def)
        have "0 \<le> a' ! nat w \<and> a' ! nat w < int (length s)"
          unfolding aw using less.prems rw by (auto simp: valid_def)
        with a len wl show ?thesis
          unfolding valid_def by (metis zle_diff1_eq order_le_less)
      qed
      have hi: "K s a' i \<le> mid" if "p < i" "i \<le> w" for i
      proof (cases "i = w")
        case True
        then show ?thesis using aw \<open>K s a r \<le> mid\<close> by (simp add: K_def)
      next
        case False
        with that post show ?thesis by (auto simp: part_post_def)
      qed
      have "part_post s mid a r w a' p"
        unfolding part_post_def
        using post v' out hi swp_mset[OF less.prems(1)] rw
        by (auto simp: part_post_def a1_def)
      with eq show ?thesis by blast
    next
      case False
      have v1: "valid s a (r + 1) w" using less.prems(1) by (rule valid_sub) auto
      have "nat (w - (r + 1)) < nat (w - r)" using rw by simp
      from less.hyps[OF this v1] rw obtain a' p where
        res: "partition_loop s mid a (r + 1) w = Some (a', p)"
        and post: "part_post s mid a (r + 1) w a' p" by auto
      have eq: "partition_loop s mid a r w = Some (a', p)"
        using partition_loop_step_keep[OF less.prems(1) rw False] res by simp
      have ar: "a' ! nat r = a ! nat r" using post r0 by (auto simp: part_post_def)
      have v': "valid s a' r w"
      proof -
        have a: "valid s a' (r + 1) w" using post by (simp add: part_post_def)
        have "0 \<le> a' ! nat r \<and> a' ! nat r < int (length s)"
          unfolding ar using less.prems rw by (auto simp: valid_def)
        with a r0 show ?thesis
          unfolding valid_def by (metis add1_zle_eq order_le_less)
      qed
      have lo: "mid < K s a' i" if "r \<le> i" "i < p" for i
      proof (cases "i = r")
        case True
        then show ?thesis using ar False by (simp add: K_def)
      next
        case False
        with that post show ?thesis by (auto simp: part_post_def)
      qed
      have "part_post s mid a r w a' p"
        unfolding part_post_def
        using post v' lo by (auto simp: part_post_def)
      with eq show ?thesis by blast
    qed
  qed
qed

lemma partition_loop_rotate:
  "valid s a r w \<Longrightarrow> r \<le> w \<Longrightarrow> partition_loop s mid a r w = Some (a', r) \<Longrightarrow>
   (\<forall>i. r \<le> i \<and> i < w \<longrightarrow> a' ! nat i = a ! nat (i + 1)) \<and> a' ! nat w = a ! nat r"
proof (induction "nat (w - r)" arbitrary: a r w rule: less_induct)
  case less
  show ?case
  proof (cases "r < w")
    case False
    with less.prems show ?thesis by (auto simp: partition_loop_done)
  next
    case rw: True
    have r0: "0 \<le> r" using less.prems by (auto simp: valid_def)
    show ?thesis
    proof (cases "K s a r \<le> mid")
      case True
      define a1 where "a1 = swp a r w"
      have v1: "valid s a1 r (w - 1)"
        unfolding a1_def by (rule valid_sub[OF valid_swp]) (use less.prems in auto)
      have res: "partition_loop s mid a1 r (w - 1) = Some (a', r)"
        using partition_loop_step_swap[OF less.prems(1) rw True] less.prems(3) by (simp add: a1_def)
      have "nat (w - 1 - r) < nat (w - r)" using rw by simp
      from less.hyps[OF this v1 _ res] rw
      have ih: "\<And>i. r \<le> i \<Longrightarrow> i < w - 1 \<Longrightarrow> a' ! nat i = a1 ! nat (i + 1)"
        "a' ! nat (w - 1) = a1 ! nat r" by auto
      from partition_loop_post[OF v1, of mid] res rw
      have post: "part_post s mid a1 r (w - 1) a' r" by auto
      have nth1: "a1 ! nat i = (if i = r then a ! nat w else if i = w then a ! nat r else a ! nat i)"
        if "0 \<le> i" for i
        unfolding a1_def using swp_nth[OF less.prems(1) _ that] rw by simp
      have aw: "a' ! nat w = a ! nat r"
        using post nth1[of w] r0 rw by (auto simp: part_post_def)
      have "a' ! nat i = a ! nat (i + 1)" if "r \<le> i" "i < w" for i
      proof (cases "i = w - 1")
        case True
        then show ?thesis using ih(2) nth1[of r] r0 by simp
      next
        case False
        with that have "i < w - 1" by simp
        from ih(1)[OF that(1) this] nth1[of "i + 1"] that r0 \<open>i < w - 1\<close>
        show ?thesis by simp
      qed
      with aw show ?thesis by blast
    next
      case False
      have v1: "valid s a (r + 1) w" using less.prems(1) by (rule valid_sub) auto
      have "partition_loop s mid a (r + 1) w = Some (a', r)"
        using partition_loop_step_keep[OF less.prems(1) rw False] less.prems(3) by simp
      with partition_loop_post[OF v1, of mid] rw have "part_post s mid a (r + 1) w a' r" by auto
      then show ?thesis by (simp add: part_post_def)
    qed
  qed
qed

lemma partition_loop_progress:
  "valid s a r w \<Longrightarrow> r \<le> w \<Longrightarrow> partition_loop s mid a r w = Some (a', p) \<Longrightarrow>
   \<exists>i. r \<le> i \<and> i < w \<and> K s a i \<le> mid \<Longrightarrow> p < w"
proof (induction "nat (w - r)" arbitrary: a r w rule: less_induct)
  case less
  from less.prems(4) have rw: "r < w" by auto
  show ?case
  proof (cases "K s a r \<le> mid")
    case True
    define a1 where "a1 = swp a r w"
    have v1: "valid s a1 r (w - 1)"
      unfolding a1_def by (rule valid_sub[OF valid_swp]) (use less.prems in auto)
    have "partition_loop s mid a1 r (w - 1) = Some (a', p)"
      using partition_loop_step_swap[OF less.prems(1) rw True] less.prems(3) by (simp add: a1_def)
    with partition_loop_post[OF v1, of mid] rw have "part_post s mid a1 r (w - 1) a' p" by auto
    then show ?thesis by (simp add: part_post_def)
  next
    case False
    have v1: "valid s a (r + 1) w" using less.prems(1) by (rule valid_sub) auto
    have res: "partition_loop s mid a (r + 1) w = Some (a', p)"
      using partition_loop_step_keep[OF less.prems(1) rw False] less.prems(3) by simp
    from less.prems(4) False obtain i where i: "r + 1 \<le> i" "i < w" "K s a i \<le> mid"
      by (metis add1_zle_eq order_le_less)
    have "nat (w - (r + 1)) < nat (w - r)" using rw by simp
    from less.hyps[OF this v1 _ res] i show ?thesis by auto
  qed
qed

lemma rotate1_measure:
  fixes ks :: "'a::linorder list"
  assumes "2 \<le> length ks" and "hd (tl ks) \<noteq> Max (set ks)"
  shows "length (takeWhile (\<lambda>x. x \<noteq> Max (set (rotate1 ks))) (tl (rotate1 ks)))
         < length (takeWhile (\<lambda>x. x \<noteq> Max (set ks)) (tl ks))"
proof -
  from assms(1) obtain x y zs where ks: "ks = x # y # zs"
    by (cases ks; cases "tl ks") auto
  define M where "M = Max (set ks)"
  have Min: "M \<in> set ks" unfolding M_def by (rule Max_in) (auto simp: ks)
  have yM: "y \<noteq> M" using assms(2) by (simp add: ks M_def)
  have M': "Max (set (rotate1 ks)) = M" by (simp add: M_def)
  have l: "tl (rotate1 ks) = zs @ [x]" by (simp add: ks)
  have r: "takeWhile (\<lambda>x. x \<noteq> M) (tl ks) = y # takeWhile (\<lambda>x. x \<noteq> M) zs"
    using yM by (simp add: ks)
  have "length (takeWhile (\<lambda>x. x \<noteq> M) (zs @ [x])) \<le> length (takeWhile (\<lambda>x. x \<noteq> M) zs)"
  proof (cases "\<forall>z \<in> set zs. z \<noteq> M")
    case True
    have xM: "x = M" using Min yM True by (auto simp: ks)
    have tz: "takeWhile (\<lambda>x. x \<noteq> M) zs = zs"
      using True by (simp add: takeWhile_eq_all_conv)
    have t1: "takeWhile (\<lambda>x. x \<noteq> M) (zs @ [x]) = zs"
      using True xM by (simp add: takeWhile_append2)
    show ?thesis by (simp only: t1 tz order_refl)
  next
    case False
    then show ?thesis by (simp add: takeWhile_append1)
  qed
  then show ?thesis unfolding M' l M_def[symmetric] r by simp
qed

lemma upto_shift_map: "map (\<lambda>i. f (i + 1)) [a..b] = map f [a + 1..b + 1]"
proof (rule nth_equalityI)
  show "length (map (\<lambda>i. f (i + 1)) [a..b]) = length (map f [a + 1..b + 1])" by simp
next
  fix i assume "i < length (map (\<lambda>i. f (i + 1)) [a..b])"
  then have i: "int i < b - a + 1" by simp
  then have 1: "[a..b] ! i = a + int i" by (intro nth_upto) simp
  from i have 2: "[a + 1..b + 1] ! i = a + 1 + int i" by (intro nth_upto) simp
  from i 1 2 show "map (\<lambda>i. f (i + 1)) [a..b] ! i = map f [a + 1..b + 1] ! i"
    by (simp add: add.commute add.left_commute)
qed

lemma map_rotate1_upto:
  assumes "lo < hi" and "\<And>i. lo \<le> i \<Longrightarrow> i < hi \<Longrightarrow> f' i = f (i + 1)" and "f' hi = f lo"
  shows "map f' [lo..hi] = rotate1 (map f [lo..hi])"
proof -
  have a: "[lo..hi] = [lo..hi - 1] @ [hi]" using assms(1) by (simp add: upto_rec2)
  have b: "[lo..hi] = lo # [lo + 1..hi]" using assms(1) by (simp add: upto_rec1)
  have "map f' [lo..hi - 1] = map (\<lambda>i. f (i + 1)) [lo..hi - 1]"
    using assms(2) by (intro map_cong) auto
  also have "\<dots> = map f [lo + 1..hi]" using upto_shift_map[of f lo "hi - 1"] by simp
  finally have c: "map f' [lo..hi - 1] = map f [lo + 1..hi]" .
  have "map f' [lo..hi] = map f' [lo..hi - 1] @ [f' hi]" using a by (metis list.simps(8,9) map_append)
  also have "\<dots> = map f [lo + 1..hi] @ [f lo]" by (simp add: c assms(3))
  also have "\<dots> = rotate1 (f lo # map f [lo + 1..hi])" by simp
  also have "f lo # map f [lo + 1..hi] = map f [lo..hi]" using b by (metis list.simps(9))
  finally show ?thesis .
qed

lemma slice_upto:
  assumes "0 \<le> lo" "hi < int (length a)"
  shows "map (\<lambda>i. a ! nat i) [lo..hi] = take (nat (hi + 1 - lo)) (drop (nat lo) a)"
proof (rule nth_equalityI)
  show "length (map (\<lambda>i. a ! nat i) [lo..hi]) = length (take (nat (hi + 1 - lo)) (drop (nat lo) a))"
    using assms by auto
next
  fix i assume "i < length (map (\<lambda>i. a ! nat i) [lo..hi])"
  then have i: "int i < hi - lo + 1" by simp
  then have 1: "[lo..hi] ! i = lo + int i" by (intro nth_upto) simp
  from i assms have 2: "nat (lo + int i) = nat lo + i" by simp
  from i assms 1 2 show "map (\<lambda>i. a ! nat i) [lo..hi] ! i = take (nat (hi + 1 - lo)) (drop (nat lo) a) ! i"
    by simp
qed

lemma mset_slice:
  assumes len: "length a' = length a" and ms: "mset a' = mset a"
    and out: "\<And>i. i < length a \<Longrightarrow> i < lo \<or> lo + n \<le> i \<Longrightarrow> a' ! i = a ! i"
  shows "mset (take n (drop lo a')) = mset (take n (drop lo a))"
proof -
  have t: "take lo a' = take lo a"
    by (rule nth_equalityI) (use len out in auto)
  have d: "drop (lo + n) a' = drop (lo + n) a"
    by (rule nth_equalityI) (use len out in auto)
  have sp: "xs = take lo xs @ take n (drop lo xs) @ drop (lo + n) xs" for xs
    by (metis append_take_drop_id drop_drop add.commute)
  have "mset a' = mset (take lo a') + mset (take n (drop lo a')) + mset (drop (lo + n) a')"
    by (subst sp[of a']) simp
  moreover have "mset a = mset (take lo a) + mset (take n (drop lo a)) + mset (drop (lo + n) a)"
    by (subst sp[of a]) simp
  ultimately show ?thesis using ms t d by simp
qed

lemma keys_mset:
  assumes "part_post s mid a lo hi a' p" and "valid s a lo hi"
  shows "mset (keys s a' lo hi) = mset (keys s a lo hi)"
proof (cases "lo \<le> hi")
  case False
  then show ?thesis by (simp add: keys_def)
next
  case True
  have lo0: "0 \<le> lo" and hl: "hi < int (length a)" using assms(2) by (auto simp: valid_def)
  have len: "length a' = length a" and ms: "mset a' = mset a"
    and out: "\<And>i. 0 \<le> i \<Longrightarrow> i < lo \<or> hi < i \<Longrightarrow> a' ! nat i = a ! nat i"
    using assms(1) by (auto simp: part_post_def)
  have "mset (take (nat (hi + 1 - lo)) (drop (nat lo) a')) = mset (take (nat (hi + 1 - lo)) (drop (nat lo) a))"
  proof (rule mset_slice[OF len ms])
    fix i assume "i < length a" "i < nat lo \<or> nat lo + nat (hi + 1 - lo) \<le> i"
    then have "int i < lo \<or> hi < int i" using True lo0 by linarith
    with out[of "int i"] show "a' ! i = a ! i" by simp
  qed
  then have "mset (map (\<lambda>i. a' ! nat i) [lo..hi]) = mset (map (\<lambda>i. a ! nat i) [lo..hi])"
    using slice_upto[OF lo0 hl] slice_upto[OF lo0, of hi a'] hl len by simp
  then have "mset (map (\<lambda>x. s ! nat x) (map (\<lambda>i. a' ! nat i) [lo..hi])) =
             mset (map (\<lambda>x. s ! nat x) (map (\<lambda>i. a ! nat i) [lo..hi]))"
    by (metis mset_map)
  moreover have "keys s b lo hi = map (\<lambda>x. s ! nat x) (map (\<lambda>i. b ! nat i) [lo..hi])" for b
    by (simp add: keys_def K_def comp_def)
  ultimately show ?thesis by simp
qed

lemma keys_set_iff: "(x \<in> set (keys s a lo hi)) = (\<exists>i. lo \<le> i \<and> i \<le> hi \<and> x = K s a i)"
  by (auto simp: keys_def)

lemma key_perm:
  assumes "part_post s mid a lo hi a' p" and "valid s a lo hi" and "lo \<le> j" "j \<le> hi"
  shows "\<exists>j'. lo \<le> j' \<and> j' \<le> hi \<and> K s a' j = K s a j'"
proof -
  have "K s a' j \<in> set (keys s a' lo hi)" using assms(3,4) by (auto simp: keys_set_iff)
  also have "set (keys s a' lo hi) = set (keys s a lo hi)"
    using keys_mset[OF assms(1,2)] by (rule mset_eq_setD)
  finally show ?thesis by (simp add: keys_set_iff)
qed

lemma key_out:
  assumes "part_post s mid a lo hi a' p" and "0 \<le> j" "j < lo \<or> hi < j"
  shows "K s a' j = K s a j"
  using assms by (simp add: part_post_def K_def)

lemma argpartition_pass:
  assumes v: "valid s a lo hi" and lt: "lo < hi"
  defines "mid \<equiv> K s a ((lo + hi) div 2)"
  shows "\<exists>a' p. partition_loop s mid a lo hi = Some (a', p) \<and>
           part_post s mid a lo hi a' p \<and> p < hi \<and>
           argpartition_loop s k a lo hi =
             (if k \<le> (if K s a' p < mid then p - 1 else p)
              then argpartition_loop s k a' lo (if K s a' p < mid then p - 1 else p)
              else argpartition_loop s k a' ((if K s a' p < mid then p - 1 else p) + 1) hi)"
proof -
  define m where "m = (lo + hi) div 2"
  have lo0: "0 \<le> lo" using v by (simp add: valid_def)
  have m: "lo \<le> m" "m < hi" using lt by (auto simp: m_def)
  have cd: "c_div2 (lo + hi) = m" using lo0 lt by (simp add: c_div2_def m_def)
  have km: "key s a m = Some mid" using key_valid[OF v, of m] m by (simp add: mid_def m_def)
  from partition_loop_post[OF v, of mid] lt obtain a' p where
    res: "partition_loop s mid a lo hi = Some (a', p)" and post: "part_post s mid a lo hi a' p"
    by auto
  have "\<exists>i. lo \<le> i \<and> i < hi \<and> K s a i \<le> mid" using m by (auto simp: mid_def m_def)
  from partition_loop_progress[OF v _ res this] lt have ph: "p < hi" by simp
  have v': "valid s a' lo hi" and pr: "lo \<le> p" "p \<le> hi" using post by (auto simp: part_post_def)
  have kp: "key s a' p = Some (K s a' p)" by (rule key_valid[OF v' pr])
  have "argpartition_loop s k a lo hi =
             (if k \<le> (if K s a' p < mid then p - 1 else p)
              then argpartition_loop s k a' lo (if K s a' p < mid then p - 1 else p)
              else argpartition_loop s k a' ((if K s a' p < mid then p - 1 else p) + 1) hi)"
    by (subst argpartition_loop.simps) (simp add: lt cd km res kp Let_def)
  with res post ph show ?thesis by blast
qed

lemma argpartition_loop_done: "\<not> lo < hi \<Longrightarrow> argpartition_loop s k a lo hi = Some a"
  by (subst argpartition_loop.simps) simp

lemma pass_inv:
  assumes inv: "ap_inv s k n a lo hi" and post: "part_post s mid a lo hi a' p" and ph: "p < hi"
  defines "r' \<equiv> (if K s a' p < mid then p - 1 else p)"
  shows "k \<le> r' \<Longrightarrow> ap_inv s k n a' lo r'" and "\<not> k \<le> r' \<Longrightarrow> ap_inv s k n a' (r' + 1) hi"
proof -
  have v: "valid s a lo hi" and hn: "hi < n"
    and L: "\<And>i j. 0 \<le> i \<Longrightarrow> i < lo \<Longrightarrow> lo \<le> j \<Longrightarrow> j < n \<Longrightarrow> K s a j \<le> K s a i"
    and R: "\<And>i j. 0 \<le> i \<Longrightarrow> i \<le> hi \<Longrightarrow> hi < j \<Longrightarrow> j < n \<Longrightarrow> K s a j \<le> K s a i"
    and k1: "0 \<le> k \<longrightarrow> lo \<le> k" and k2: "k < n \<longrightarrow> k \<le> hi"
    using inv by (auto simp: ap_inv_def)
  have lo0: "0 \<le> lo" using v by (simp add: valid_def)
  have v': "valid s a' lo hi" and pr: "lo \<le> p" "p \<le> hi"
    and lft: "\<And>i. lo \<le> i \<Longrightarrow> i < p \<Longrightarrow> mid < K s a' i"
    and rgt: "\<And>i. p < i \<Longrightarrow> i \<le> hi \<Longrightarrow> K s a' i \<le> mid"
    using post by (auto simp: part_post_def)
  have rb: "lo - 1 \<le> r'" "r' \<le> p" using pr by (auto simp: r'_def)
  have F3: "K s a' j \<le> K s a' i" if "lo \<le> i" "i \<le> r'" "r' < j" "j \<le> hi" for i j
  proof (cases "K s a' p < mid")
    case True
    then have r: "r' = p - 1" by (simp add: r'_def)
    have "mid < K s a' i" using lft[of i] that r by simp
    moreover have "K s a' j \<le> mid"
    proof (cases "j = p")
      case True with \<open>K s a' p < mid\<close> show ?thesis by simp
    next
      case False with rgt[of j] that r show ?thesis by simp
    qed
    ultimately show ?thesis by simp
  next
    case False
    then have r: "r' = p" by (simp add: r'_def)
    have "mid \<le> K s a' i"
    proof (cases "i = p")
      case True with False show ?thesis by simp
    next
      case False with lft[of i] that r show ?thesis by simp
    qed
    moreover have "K s a' j \<le> mid" using rgt[of j] that r by simp
    ultimately show ?thesis by simp
  qed
  have TL: "K s a' j \<le> K s a' i" if "0 \<le> i" "i < lo" "lo \<le> j" "j < n" for i j
  proof -
    have i: "K s a' i = K s a i" using key_out[OF post, of i] that by simp
    show ?thesis
    proof (cases "j \<le> hi")
      case True
      from key_perm[OF post v that(3) True] obtain j' where
        "lo \<le> j'" "j' \<le> hi" "K s a' j = K s a j'" by blast
      with L[of i j'] that hn i show ?thesis by simp
    next
      case False
      then have "K s a' j = K s a j" using key_out[OF post, of j] that lo0 by simp
      with L[of i j] that i show ?thesis by simp
    qed
  qed
  have TR: "K s a' j \<le> K s a' i" if "0 \<le> i" "i \<le> hi" "hi < j" "j < n" for i j
  proof -
    have j: "K s a' j = K s a j" using key_out[OF post, of j] that by simp
    show ?thesis
    proof (cases "lo \<le> i")
      case True
      from key_perm[OF post v True that(2)] obtain i' where
        "lo \<le> i'" "i' \<le> hi" "K s a' i = K s a i'" by blast
      with R[of i' j] that lo0 j show ?thesis by simp
    next
      case False
      then have "K s a' i = K s a i" using key_out[OF post, of i] that by simp
      with R[of i j] that j show ?thesis by simp
    qed
  qed
  show "ap_inv s k n a' lo r'" if kr: "k \<le> r'"
  proof -
    have "valid s a' lo r'" by (rule valid_sub[OF v']) (use rb pr in auto)
    moreover have "r' < n" using rb pr hn by simp
    moreover have "K s a' j \<le> K s a' i" if "0 \<le> i" "i \<le> r'" "r' < j" "j < n" for i j
    proof (cases "hi < j")
      case True
      with TR[of i j] that rb pr show ?thesis by simp
    next
      case False
      show ?thesis
      proof (cases "lo \<le> i")
        case True with F3[of i j] that False show ?thesis by simp
      next
        case False
        with TL[of i j] that rb show ?thesis by simp
      qed
    qed
    ultimately show ?thesis unfolding ap_inv_def using TL k1 kr by blast
  qed
  show "ap_inv s k n a' (r' + 1) hi" if kr: "\<not> k \<le> r'"
  proof -
    have "valid s a' (r' + 1) hi" by (rule valid_sub[OF v']) (use rb in auto)
    moreover have "K s a' j \<le> K s a' i" if "0 \<le> i" "i < r' + 1" "r' + 1 \<le> j" "j < n" for i j
    proof (cases "lo \<le> i")
      case False
      with TL[of i j] that rb show ?thesis by simp
    next
      case True
      show ?thesis
      proof (cases "hi < j")
        case True
        with TR[of i j] that rb pr show ?thesis by simp
      next
        case False
        with F3[of i j] that True show ?thesis by simp
      qed
    qed
    moreover have "0 \<le> k \<longrightarrow> r' + 1 \<le> k" using kr by simp
    ultimately show ?thesis unfolding ap_inv_def using TR k2 hn by blast
  qed
qed

lemma no_progress_rotm:
  assumes v: "valid s a lo hi" and lt: "lo < hi"
    and res: "partition_loop s (K s a ((lo + hi) div 2)) a lo hi = Some (a', lo)"
    and small: "K s a' lo < K s a ((lo + hi) div 2)"
  shows "rotm s a' lo hi < rotm s a lo hi"
proof -
  define mid where "mid = K s a ((lo + hi) div 2)"
  have lo0: "0 \<le> lo" using v by (simp add: valid_def)
  from partition_loop_rotate[OF v _ res] lt
  have rot: "\<And>i. lo \<le> i \<Longrightarrow> i < hi \<Longrightarrow> a' ! nat i = a ! nat (i + 1)" "a' ! nat hi = a ! nat lo"
    by auto
  have ks: "keys s a' lo hi = rotate1 (keys s a lo hi)"
    unfolding keys_def
    by (rule map_rotate1_upto[OF lt]) (simp_all add: K_def rot)
  have u1: "[lo..hi] = lo # [lo + 1..hi]" using lt by (simp add: upto_rec1)
  have u2: "[lo + 1..hi] = (lo + 1) # [lo + 1 + 1..hi]" using lt by (subst upto_rec1) simp_all
  have k2: "keys s a lo hi = K s a lo # K s a (lo + 1) # map (K s a) [lo + 1 + 1..hi]"
    unfolding keys_def by (subst u1, subst u2) simp
  have len: "2 \<le> length (keys s a lo hi)" by (simp add: k2)
  have h: "hd (tl (keys s a lo hi)) = K s a' lo"
    using rot(1)[of lo] lt by (simp add: k2 K_def)
  have "mid \<in> set (keys s a lo hi)"
    unfolding keys_set_iff mid_def using lt by (intro exI[of _ "(lo + hi) div 2"]) auto
  then have "mid \<le> Max (set (keys s a lo hi))" by (intro Max_ge) auto
  with small have "hd (tl (keys s a lo hi)) \<noteq> Max (set (keys s a lo hi))"
    unfolding h mid_def by auto
  from rotate1_measure[OF len this] show ?thesis
    unfolding rotm_def ks .
qed

lemma argpartition_loop_correct:
  "ap_inv s k n a lo hi \<Longrightarrow> \<exists>a'. argpartition_loop s k a lo hi = Some a' \<and> ap_post s k n a a'"
proof (induction "nat (hi - lo)" arbitrary: a lo hi rule: less_induct)
  case outer: less
  show ?case using outer.prems
  proof (induction "rotm s a lo hi" arbitrary: a rule: less_induct)
    case inner: less
    note inv = inner.prems
    show ?case
    proof (cases "lo < hi")
      case False
      have L: "\<And>i j. 0 \<le> i \<Longrightarrow> i < lo \<Longrightarrow> lo \<le> j \<Longrightarrow> j < n \<Longrightarrow> K s a j \<le> K s a i"
        and k1: "0 \<le> k \<longrightarrow> lo \<le> k" and k2: "k < n \<longrightarrow> k \<le> hi"
        using inv by (auto simp: ap_inv_def)
      have "K s a j \<le> K s a i" if "0 \<le> i" "i < k" "k \<le> j" "j < n" for i j
      proof -
        from that k1 k2 False have "lo = k" by simp
        with L[of i j] that show ?thesis by simp
      qed
      then have "ap_post s k n a a" by (simp add: ap_post_def)
      with argpartition_loop_done[OF False, of s k a] show ?thesis by simp
    next
      case lt: True
      have v: "valid s a lo hi" and hn: "hi < n" using inv by (auto simp: ap_inv_def)
      define mid where "mid = K s a ((lo + hi) div 2)"
      from argpartition_pass[OF v lt, of k] obtain a1 p where
        res: "partition_loop s mid a lo hi = Some (a1, p)"
        and post: "part_post s mid a lo hi a1 p" and ph: "p < hi"
        and step: "argpartition_loop s k a lo hi =
             (if k \<le> (if K s a1 p < mid then p - 1 else p)
              then argpartition_loop s k a1 lo (if K s a1 p < mid then p - 1 else p)
              else argpartition_loop s k a1 ((if K s a1 p < mid then p - 1 else p) + 1) hi)"
        unfolding mid_def by blast
      define r' where "r' = (if K s a1 p < mid then p - 1 else p)"
      have pr: "lo \<le> p" using post by (simp add: part_post_def)
      have rb: "lo - 1 \<le> r'" "r' \<le> p" using pr by (auto simp: r'_def)
      note pi = pass_inv[OF inv post ph, folded r'_def]
      have frame: "ap_post s k n a a'" if "ap_post s k n a1 a'" for a'
      proof -
        have "a1 ! nat i = a ! nat i" if "n \<le> i" for i
          using post that hn v by (auto simp: part_post_def valid_def)
        with that post show ?thesis by (auto simp: ap_post_def part_post_def)
      qed
      have "\<exists>a'. argpartition_loop s k a lo hi = Some a' \<and> ap_post s k n a1 a'"
      proof (cases "k \<le> r'")
        case True
        have "nat (r' - lo) < nat (hi - lo)" using rb ph lt by simp
        from outer.hyps[OF this pi(1)[OF True]] step True show ?thesis
          by (simp add: r'_def)
      next
        case False
        show ?thesis
        proof (cases "lo \<le> r'")
          case True
          have "nat (hi - (r' + 1)) < nat (hi - lo)" using True lt by simp
          from outer.hyps[OF this pi(2)[OF False]] step False show ?thesis
            by (simp add: r'_def)
        next
          case np: False
          with rb have r: "r' = lo - 1" by simp
          then have small: "K s a1 p < mid" and pl: "p = lo"
            using pr by (auto simp: r'_def split: if_splits)
          have "rotm s a1 lo hi < rotm s a lo hi"
            by (rule no_progress_rotm[OF v lt]) (use res small pl in \<open>simp_all add: mid_def\<close>)
          from inner.hyps[OF this] pi(2)[OF False] r step False show ?thesis
            by (simp add: r'_def)
        qed
      qed
      with frame show ?thesis by blast
    qed
  qed
qed

section \<open>Cluster extraction: size filter and sense ids\<close>

text \<open>
  Claim C9. Every cluster that \<^verbatim>\<open>findClusters\<close> puts on the output queue has at
  least \<^verbatim>\<open>minCluster\<close> members, for every ego network, every base node, every
  graph and every value of \<^verbatim>\<open>minCluster\<close>: a smaller cluster is never published.
\<close>

theorem findClusters_min_cluster:
  "\<forall>c \<in> set (fst (findClusters h iteration_order distributedGraph minCluster baseNode tokenGraph)).
     minCluster \<le> int (length (members c))"
  by (simp add: findClusters_def findClusters_loop_size split: sum.splits)

theorem findClusters_min_cluster_witness:
  "hd (fst (findClusters 0 id example_sorted 2 (Cached 0) example_ego))
     \<in> set (fst (findClusters 0 id example_sorted 2 (Cached 0) example_ego)) \<and>
   2 \<le> int (length (members (hd (fst (findClusters 0 id example_sorted 2 (Cached 0) example_ego)))))"
proof -
  have "hd (fst (findClusters 0 id example_sorted 2 (Cached 0) example_ego))
          \<in> set (fst (findClusters 0 id example_sorted 2 (Cached 0) example_ego))"
    by code_simp
  with findClusters_min_cluster [of 0 id example_sorted 2 "Cached 0" example_ego]
  show ?thesis by blast
qed

text \<open>
  Claim C3, as the code has it. The sense ids of the clusters that one call of
  \<^verbatim>\<open>findClusters\<close> publishes are \<open>0, 1, 2, \<dots>\<close> in the order of publication:
  strictly increasing, none skipped, and the first published cluster has sense id 0,
  because the cluster is constructed with the value of the counter before the
  increment.
\<close>

theorem findClusters_sense_ids:
  "map sense (fst (findClusters h iteration_order distributedGraph minCluster baseNode tokenGraph)) =
   map int [0..<length (fst (findClusters h iteration_order distributedGraph minCluster
                               baseNode tokenGraph))]"
proof (cases "getEdges distributedGraph baseNode")
  case (Inl e)
  then show ?thesis by (simp add: findClusters_def)
next
  case (Inr edges)
  then show ?thesis
    using findClusters_loop_sense [of tokenGraph _ minCluster baseNode _ 0]
    by (simp add: findClusters_def)
qed

text \<open>
  The claim as the specification words it (the first published cluster has sense id 1)
  fails on the triangle: its one cluster is published with sense id 0.
\<close>

theorem findClusters_first_sense_counterexample:
  "map sense (fst (findClusters 0 id example_sorted 2 (Cached 0) example_ego)) = [0] \<and>
   sense (hd (fst (findClusters 0 id example_sorted 2 (Cached 0) example_ego))) \<noteq> 1"
  by code_simp

section \<open>Chinese Whispers: bound on the number of sweeps\<close>

text \<open>
  Claim C10. \<^verbatim>\<open>chineseWhispers\<close> returns for every graph, every shuffle, every
  order of the key sets and every \<^verbatim>\<open>maxIterations\<close> (the model is a total
  function), and it starts at most \<^verbatim>\<open>maxIterations\<close> sweeps over the node list (none
  when \<^verbatim>\<open>maxIterations\<close> is not positive). It stops earlier after a sweep with no label change:
  every sweep but the last one ended with \<^verbatim>\<open>changed\<close> set.
\<close>

theorem chineseWhispers_sweeps:
  "length (fst (chineseWhispers shuffle key_order init_max maxIterations h tokenNetwork))
     \<le> nat maxIterations \<and>
   butlast (fst (chineseWhispers shuffle key_order init_max maxIterations h tokenNetwork)) =
     replicate (length (fst (chineseWhispers shuffle key_order init_max maxIterations h
                               tokenNetwork)) - 1) True"
proof -
  obtain n h1 where gn: "getNodes h tokenNetwork = (n, h1)"
    by (cases "getNodes h tokenNetwork")
  show ?thesis
  proof (cases "cw_init h1 n 1 tokenNetwork")
    case (Inl e)
    with gn show ?thesis by (simp add: chineseWhispers_def)
  next
    case (Inr p)
    obtain g1 h2 where p: "p = (g1, h2)" by (cases p)
    from gn Inr p
    have eq: "chineseWhispers shuffle key_order init_max maxIterations h tokenNetwork =
              cw_iterate shuffle key_order init_max (nat maxIterations) 0 True h2 g1"
      by (simp add: chineseWhispers_def)
    show ?thesis
      unfolding eq using cw_iterate_length cw_iterate_butlast by blast
  qed
qed

section \<open>The graph: self-loops, symmetry, duplicates, absent nodes, sorting\<close>

lemma example_G_is_built: "built example_G"
  unfolding built_def using example_empty_new example_G_added by blast

lemma load_loop_addEdges:
  "load_loop h triples g = Inr (g', h') \<Longrightarrow> \<exists>es. addEdges g es = Inr g'"
proof (induction triples arbitrary: h g)
  case Nil
  then have "addEdges g [] = Inr g'" by simp
  then show ?case by blast
next
  case (Cons t triples)
  obtain f to w where t: "t = (f, to, w)" by (cases t)
  obtain a h1 where a: "valueOf h f = (a, h1)" by (cases "valueOf h f")
  obtain b h2 where b: "valueOf h1 to = (b, h2)" by (cases "valueOf h1 to")
  from Cons.prems t a b obtain g1 where g1: "addEdge g a b w = Inr g1"
    and r: "load_loop h2 triples g1 = Inr (g', h')"
    by (auto simp: ebind_def split: sum.splits)
  from Cons.IH[OF r] obtain es where "addEdges g1 es = Inr g'" by blast
  with g1 have "addEdges g ((a, b, w) # es) = Inr g'" by (simp add: ebind_def)
  then show ?case by blast
qed

text \<open>Every graph that the loader returns is built by \<^verbatim>\<open>addEdge\<close> calls.\<close>

lemma loadDistributedGraph_built:
  "loadDistributedGraph h triples = Inr (g, h') \<Longrightarrow> built g"
proof -
  assume l: "loadDistributedGraph h triples = Inr (g, h')"
  then obtain g0 where g0: "new_Graph 200000 = Inr g0" and ll: "load_loop h triples g0 = Inr (g, h')"
    by (auto simp: loadDistributedGraph_def ebind_def split: sum.splits)
  from load_loop_addEdges[OF ll] g0 show ?thesis unfolding built_def by blast
qed

lemma example_empty_is_built: "built example_empty"
proof -
  have "addEdges example_empty [] = Inr example_empty" by simp
  with example_empty_new show ?thesis unfolding built_def by blast
qed

text \<open>
  An \<^verbatim>\<open>addEdge\<close> call whose two arguments are the same object changes nothing, and
  boxing a value in \<open>-128..127\<close> twice gives the same object: for these values the
  loader drops a triple with \<open>from = to\<close>.
\<close>

lemma load_loop_self_loop_cached:
  "- 128 \<le> v \<Longrightarrow> v \<le> 127 \<Longrightarrow> load_loop h [(v, v, w)] g = Inr (g, h)"
  by (simp add: valueOf_def addEdge_def ebind_def)

text \<open>
  Claim C4 fails on the code. The loader reads the triple \<open>(200, 200, w)\<close>, boxes 200
  twice into two different objects, \<^verbatim>\<open>from != to\<close> holds of the two references, and
  node 200 becomes its own neighbour: after loading the file that holds this one record,
  the neighbour list of node 200 is the one-element list holding the second object.
\<close>

theorem loadDistributedGraph_self_loop:
  "ebind (loadDistributedGraph 0 [(200, 200, w)]) (\<lambda>(g, h). getNeighbors g (Boxed 2 200))
     = Inr [Boxed 1 200]"
  by (simp add: loadDistributedGraph_def new_Graph_def valueOf_def addEdge_def addNode_def
      ensureCapacity_def i32_small ebind_def aset_def aget_def addHalf_def getNeighbors_def Let_def)

text \<open>
  Claim C7 fails on the code. On the graph that \<^verbatim>\<open>new Graph()\<close> creates (capacity 10,
  no node), \<^verbatim>\<open>getEdgeWeight\<close> of the absent node 3 throws a
  \<^verbatim>\<open>NullPointerException\<close> and of the absent node 10 an
  \<^verbatim>\<open>ArrayIndexOutOfBoundsException\<close>; \<^verbatim>\<open>getNeighbors\<close> returns the empty list for
  the absent node 3 and throws for the absent node 10.
\<close>

theorem getEdgeWeight_absent_node_faults:
  "getEdgeWeight example_empty (Cached 3) (Cached 4) = Inl NullPointerException \<and>
   getEdgeWeight example_empty (Cached 10) (Cached 4) = Inl ArrayIndexOutOfBoundsException \<and>
   getNeighbors example_empty (Cached 3) = Inr [] \<and>
   getNeighbors example_empty (Cached 10) = Inl ArrayIndexOutOfBoundsException"
  by code_simp

text \<open>
  Claim C5. In every graph built by a constructor call and any sequence of
  \<^verbatim>\<open>addEdge\<close> calls that returned, whenever \<open>v\<close> is among the neighbours of \<open>u\<close>,
  then \<open>u\<close> is among the neighbours of \<open>v\<close>, and \<^verbatim>\<open>getEdgeWeight\<close> returns the same
  stored weight in both directions. (With the roles of \<open>u\<close> and \<open>v\<close> exchanged this is
  the equivalence.)
\<close>

theorem addEdge_symmetric:
  assumes b: "built g" and gn: "getNeighbors g u = Inr nu"
    and vin: "intValue v \<in> intValue ` set nu"
  shows "\<exists>nv w. getNeighbors g v = Inr nv \<and> intValue u \<in> intValue ` set nv \<and>
           getEdgeWeight g u v = Inr w \<and> getEdgeWeight g v u = Inr w"
proof -
  from built_inv[OF b] have wf: "graph_wf g" and sym: "adj_sym (adjw g)" by auto
  have "intValue v \<in> set (map fst (adjw g (intValue u)))"
    using getNeighbors_adjw[OF wf gn] vin by (metis list.set_map)
  then obtain w where w: "(intValue v, w) \<in> set (adjw g (intValue u))" by auto
  with sym have w': "(intValue u, w) \<in> set (adjw g (intValue v))" by (simp add: adj_sym_def)
  then have "intValue v \<in> nodes g" using adjw_nonempty_present[OF wf] by force
  from getNeighbors_present[OF wf this] obtain nv where nv: "getNeighbors g v = Inr nv" by blast
  have "intValue u \<in> set (map fst (adjw g (intValue v)))" using w' by force
  then have "intValue u \<in> intValue ` set nv"
    using getNeighbors_adjw[OF wf nv] by (metis list.set_map)
  with nv getEdgeWeight_adjw[OF wf w] getEdgeWeight_adjw[OF wf w'] show ?thesis by blast
qed

theorem addEdge_symmetric_witness:
  "built example_G \<and> getNeighbors example_G (Cached 1) = Inr [Cached 0, Cached 2, Cached 3] \<and>
   intValue (Cached 3) \<in> intValue ` set [Cached 0, Cached 2, Cached 3] \<and>
   (\<exists>nv w. getNeighbors example_G (Cached 3) = Inr nv \<and>
      intValue (Cached 1) \<in> intValue ` set nv \<and>
      getEdgeWeight example_G (Cached 1) (Cached 3) = Inr w \<and>
      getEdgeWeight example_G (Cached 3) (Cached 1) = Inr w)"
proof -
  have gn: "getNeighbors example_G (Cached 1) = Inr [Cached 0, Cached 2, Cached 3]"
    by code_simp
  have vin: "intValue (Cached 3) \<in> intValue ` set [Cached 0, Cached 2, Cached 3]"
    by simp
  from addEdge_symmetric [OF example_G_is_built gn vin] example_G_is_built gn vin
  show ?thesis by blast
qed

definition example_12 :: "real \<Rightarrow> real Graph" where
  "example_12 w = \<lparr> size_cap = 10, nodes = {2, 1},
     nodeClasses = [None, None, None, None, None, None, None, None, None, None],
     edgeSourceSet = [None, Some {2}, Some {1}, None, None, None, None, None, None, None],
     edgeSources = [None, Some [Cached 2], Some [Cached 1], None, None, None, None, None,
                    None, None],
     edgeWeights = [None, Some [w], Some [w], None, None, None, None, None, None, None] \<rparr>"

lemma example_12_added: "addEdge example_empty (Cached 1) (Cached 2) w = Inr (example_12 w)"
  by (simp add: example_empty_def example_12_def addEdge_def addNode_def ensureCapacity_def
      i32_small ebind_def aset_def aget_def addHalf_def Let_def insert_commute)

lemma example_12_again: "addEdge (example_12 w) (Cached 1) (Cached 2) w' = Inr (example_12 w)"
  by (simp add: example_12_def addEdge_def addNode_def ensureCapacity_def
      i32_small ebind_def aset_def aget_def addHalf_def Let_def)

lemma example_12_is_built: "built (example_12 w)"
proof -
  have "addEdges example_empty [(Cached 1, Cached 2, w)] = Inr (example_12 w)"
    by (simp add: example_12_added ebind_def)
  with example_empty_new show ?thesis unfolding built_def by blast
qed

lemma add_half_adj_present:
  "y \<in> fst ` set (adj x) \<Longrightarrow> add_half_adj adj x y w = adj"
  by (auto simp: add_half_adj_def fun_eq_iff)

text \<open>
  Claim C6. Duplicate insertion is idempotent and the first writer's weight stays. In a
  graph built by \<^verbatim>\<open>addEdge\<close> calls, after \<^verbatim>\<open>addEdge(u, v, w1)\<close> with \<open>u \<noteq> v\<close>,
  a following \<^verbatim>\<open>addEdge(u, v, w2)\<close> (with any boxes of the same two values) leaves
  the graph as it is: the neighbour list of \<open>u\<close> holds \<open>v\<close> exactly once, its length
  is unchanged by the second call, and the weight of the edge is not updated. The
  weight that \<^verbatim>\<open>getEdgeWeight(u, v)\<close> returns afterwards is \<open>w1\<close> when the first
  call was the first insertion of the edge (\<open>v\<close> was not a neighbour of \<open>u\<close> before
  it); when the edge was in the graph already, the first call was itself a re-insert
  and the weight is the one that \<^verbatim>\<open>getEdgeWeight(u, v)\<close> returned before it.
\<close>

theorem addEdge_duplicate:
  assumes b: "built g" and ne: "intValue u \<noteq> intValue v"
    and a1: "addEdge g u v w1 = Inr g1"
    and eqs: "intValue u' = intValue u" "intValue v' = intValue v"
    and a2: "addEdge g1 u' v' w2 = Inr g2"
  shows "g2 = g1 \<and>
    (\<exists>nu. getNeighbors g2 u = Inr nu \<and> length (filter (\<lambda>x. intValue x = intValue v) nu) = 1) \<and>
    (\<exists>w. getEdgeWeight g2 u v = Inr w \<and> getEdgeWeight g1 u v = Inr w \<and>
       ((\<forall>nu0. getNeighbors g u = Inr nu0 \<longrightarrow> intValue v \<notin> intValue ` set nu0) \<longrightarrow> w = w1) \<and>
       ((\<exists>nu0. getNeighbors g u = Inr nu0 \<and> intValue v \<in> intValue ` set nu0) \<longrightarrow>
          getEdgeWeight g u v = Inr w))"
proof -
  from built_inv[OF b] have wf: "graph_wf g" and sym: "adj_sym (adjw g)" by auto
  have uv: "u \<noteq> v" "u' \<noteq> v'" using ne eqs by auto
  note p = addEdge_props(1,2)[OF wf a1]
  have wf1: "graph_wf g1" by (rule p(1))
  have adj1: "adjw g1 = add_half_adj (add_half_adj (adjw g) (intValue u) (intValue v) w1)
                          (intValue v) (intValue u) w1" by (rule p(2)[OF uv(1)])
  have sym1: "adj_sym (adjw g1)" unfolding adj1 by (rule add_half_adj_sym[OF sym])
  have vin: "intValue v \<in> fst ` set (adjw g1 (intValue u))"
    unfolding adj1 using ne by (force simp: add_half_adj_def)
  then have uin: "intValue u \<in> fst ` set (adjw g1 (intValue v))"
    using adj_sym_nbrs[OF sym1] by simp
  have un: "intValue u \<in> nodes g1" using adjw_nonempty_present[OF wf1] vin by force
  have vn: "intValue v \<in> nodes g1" using adjw_nonempty_present[OF wf1] uin by force
  have g21: "g2 = g1"
    using a2 uv(2) addNode_present[OF wf1, of u'] addNode_present[OF wf1, of v']
          addHalf_present[OF wf1, of u' v' w2] addHalf_present[OF wf1, of v' u' w2]
          un vn vin uin eqs
    by (simp add: addEdge_def ebind_def)
  from getNeighbors_present[OF wf1 un] obtain nu where nu: "getNeighbors g1 u = Inr nu" by blast
  have mnu: "map intValue nu = map fst (adjw g1 (intValue u))" by (rule getNeighbors_adjw[OF wf1 nu])
  have "node_wf g1 (intValue u)" using wf1 by (simp add: graph_wf_def)
  from node_wf_adjw[OF this un] have "distinct (map fst (adjw g1 (intValue u)))" by auto
  then have dnu: "distinct (map intValue nu)" using mnu by simp
  have "intValue v \<in> intValue ` set nu" using vin mnu by (metis list.set_map)
  from filter_value_once[OF dnu this]
  have once: "length (filter (\<lambda>x. intValue x = intValue v) nu) = 1" .
  from vin obtain w where w: "(intValue v, w) \<in> set (adjw g1 (intValue u))" by auto
  have gw: "getEdgeWeight g1 u v = Inr w" by (rule getEdgeWeight_adjw[OF wf1 w])
  have fresh: "w = w1" if nadj: "\<forall>nu0. getNeighbors g u = Inr nu0 \<longrightarrow> intValue v \<notin> intValue ` set nu0"
  proof -
    have nv: "intValue v \<notin> fst ` set (adjw g (intValue u))"
    proof (cases "intValue u \<in> nodes g")
      case True
      from getNeighbors_present[OF wf True] obtain nu0 where n0: "getNeighbors g u = Inr nu0" by blast
      with nadj have "intValue v \<notin> intValue ` set nu0" by simp
      then show ?thesis using getNeighbors_adjw[OF wf n0] by (metis list.set_map)
    next
      case False
      then show ?thesis using adjw_absent[OF wf False] by simp
    qed
    then have "(intValue v, w1) \<in> set (adjw g1 (intValue u))"
      unfolding adj1 using ne by (simp add: add_half_adj_def)
    from getEdgeWeight_adjw[OF wf1 this] gw show ?thesis by simp
  qed
  have stored: "getEdgeWeight g u v = Inr w"
    if adj: "\<exists>nu0. getNeighbors g u = Inr nu0 \<and> intValue v \<in> intValue ` set nu0"
  proof -
    from adj obtain nu0 where n0: "getNeighbors g u = Inr nu0"
      and v0: "intValue v \<in> intValue ` set nu0" by blast
    have vg: "intValue v \<in> fst ` set (adjw g (intValue u))"
      using getNeighbors_adjw[OF wf n0] v0 by (metis list.set_map)
    then have ug: "intValue u \<in> fst ` set (adjw g (intValue v))"
      using adj_sym_nbrs[OF sym] by simp
    have "adjw g1 = adjw g"
      unfolding adj1
      by (simp add: add_half_adj_present[where adj="adjw g" and x="intValue u", OF vg]
                    add_half_adj_present[where adj="adjw g" and x="intValue v", OF ug])
    with w have "(intValue v, w) \<in> set (adjw g (intValue u))" by simp
    then show ?thesis by (rule getEdgeWeight_adjw[OF wf])
  qed
  from g21 nu once gw fresh stored show ?thesis by blast
qed

text \<open>
  Scenario S3 on the empty graph: after \<open>(1, 2, 1 / 2)\<close> and \<open>(1, 2, 9 / 10)\<close> the
  weight is \<open>1 / 2\<close> and node 1 has one neighbour. And on the graph that holds the edge
  with weight \<open>3 / 10\<close> already, both calls are re-inserts and the weight stays
  \<open>3 / 10\<close>.
\<close>

theorem addEdge_duplicate_witness:
  "built example_empty \<and> intValue (Cached 1) \<noteq> intValue (Cached 2) \<and>
   addEdge example_empty (Cached 1) (Cached 2) (1 / 2) = Inr (example_12 (1 / 2)) \<and>
   addEdge (example_12 (1 / 2)) (Cached 1) (Cached 2) (9 / 10) = Inr (example_12 (1 / 2)) \<and>
   getNeighbors example_empty (Cached 1) = Inr [] \<and>
   getNeighbors (example_12 (1 / 2)) (Cached 1) = Inr [Cached 2] \<and>
   getEdgeWeight (example_12 (1 / 2)) (Cached 1) (Cached 2) = Inr (1 / 2) \<and>
   built (example_12 (3 / 10)) \<and>
   addEdge (example_12 (3 / 10)) (Cached 1) (Cached 2) (1 / 2) = Inr (example_12 (3 / 10)) \<and>
   addEdge (example_12 (3 / 10)) (Cached 1) (Cached 2) (9 / 10) = Inr (example_12 (3 / 10)) \<and>
   getNeighbors (example_12 (3 / 10)) (Cached 1) = Inr [Cached 2] \<and>
   getEdgeWeight (example_12 (3 / 10)) (Cached 1) (Cached 2) = Inr (3 / 10)"
proof -
  have ne: "intValue (Cached 1) \<noteq> intValue (Cached 2)" by simp
  have g0: "getNeighbors example_empty (Cached 1) = Inr []" by code_simp
  have g1: "getNeighbors (example_12 w) (Cached 1) = Inr [Cached 2]" for w
    by (simp add: example_12_def getNeighbors_def ebind_def aget_def)
  from addEdge_duplicate [OF example_empty_is_built ne example_12_added [of "1 / 2"] refl refl
         example_12_again [of "1 / 2" "9 / 10"]] g0
  have fresh: "getEdgeWeight (example_12 (1 / 2)) (Cached 1) (Cached 2) = Inr (1 / 2)" by auto
  have old: "getEdgeWeight (example_12 (3 / 10)) (Cached 1) (Cached 2) = Inr (3 / 10)"
    by code_simp
  from example_empty_is_built ne example_12_added example_12_again g0 g1 fresh old
       example_12_is_built
  show ?thesis by simp
qed

text \<open>
  Claim C8. On a graph built by \<^verbatim>\<open>addEdge\<close> calls \<^verbatim>\<open>sortEdges\<close> returns; and
  whenever it returns, on any graph, the edges of every node afterwards are the edges
  before in another order (the same pairs of neighbour and weight, each as often as
  before), with the weights in non-decreasing order.
\<close>

theorem sortEdges_sorted:
  "(built g \<longrightarrow> (\<exists>g'. sortEdges g = Inr g')) \<and>
   (sortEdges g = Inr g' \<and> getEdges g v = Inr es \<longrightarrow>
      (\<exists>es'. getEdges g' v = Inr es' \<and> sorted (map snd es') \<and> mset es' = mset es))"
  using sortEdges_total built_inv sortEdges_getEdges by blast

theorem sortEdges_sorted_witness:
  "built example_G \<and> sortEdges example_G = Inr example_sorted \<and>
   getEdges example_G (Cached 0) = Inr [(Cached 1, 9 / 10), (Cached 2, 4 / 5), (Cached 3, 2 / 5)] \<and>
   getEdges example_sorted (Cached 0) = Inr [(Cached 3, 2 / 5), (Cached 2, 4 / 5), (Cached 1, 9 / 10)] \<and>
   sorted (map snd [(Cached 3, 2 / 5 :: real), (Cached 2, 4 / 5), (Cached 1, 9 / 10)]) \<and>
   mset [(Cached 3, 2 / 5 :: real), (Cached 2, 4 / 5), (Cached 1, 9 / 10)] =
     mset [(Cached 1, 9 / 10), (Cached 2, 4 / 5), (Cached 3, 2 / 5)]"
proof -
  have e: "getEdges example_G (Cached 0) = Inr [(Cached 1, 9 / 10), (Cached 2, 4 / 5), (Cached 3, 2 / 5)]"
    by code_simp
  have e': "getEdges example_sorted (Cached 0) = Inr [(Cached 3, 2 / 5), (Cached 2, 4 / 5), (Cached 1, 9 / 10)]"
    by code_simp
  from sortEdges_sorted [of example_G example_sorted "Cached 0"
         "[(Cached 1, 9 / 10), (Cached 2, 4 / 5), (Cached 3, 2 / 5)]"]
       example_sortEdges e e' example_G_is_built
  show ?thesis by auto
qed

section \<open>The similarity kernel: top-k partition and emission\<close>

text \<open>
  Claim C1, as the code has it. For every index array whose first \<open>size\<close> entries are
  indices of the score array, and for every \<open>k\<close>, \<^verbatim>\<open>argpartition\<close> returns (its
  loops end and no read leaves the arrays), the result is a permutation of the index
  array that leaves the entries from \<open>size\<close> on in place, and the \<open>k\<close> largest
  scores come first: every score at a position below \<open>k\<close> is at least every score at
  a position from \<open>k\<close> up to \<open>size - 1\<close>.
\<close>

theorem argpartition_largest_first:
  assumes "0 \<le> size_n" and "size_n \<le> int (length nearest)"
    and "\<forall>x \<in> set (take (nat size_n) nearest). 0 \<le> x \<and> x < int (length similar)"
  shows "\<exists>res. argpartition nearest similar k size_n = Some res \<and>
           length res = length nearest \<and> mset res = mset nearest \<and>
           (\<forall>i. size_n \<le> i \<longrightarrow> res ! nat i = nearest ! nat i) \<and>
           (\<forall>i j. 0 \<le> i \<and> i < k \<and> k \<le> j \<and> j < size_n \<longrightarrow>
              similar ! nat (res ! nat j) \<le> similar ! nat (res ! nat i))"
proof -
  have "valid similar nearest 0 (size_n - 1)"
    unfolding valid_def
  proof (intro conjI allI impI)
    fix i assume i: "0 \<le> i \<and> i \<le> size_n - 1"
    then have "nat i < length (take (nat size_n) nearest)" using assms(2) by simp
    then have "take (nat size_n) nearest ! nat i \<in> set (take (nat size_n) nearest)"
      by (rule nth_mem)
    moreover have "take (nat size_n) nearest ! nat i = nearest ! nat i" using i by simp
    ultimately show "0 \<le> nearest ! nat i" "nearest ! nat i < int (length similar)"
      using assms(3) by auto
  qed (use assms in auto)
  then have "ap_inv similar k size_n nearest 0 (size_n - 1)"
    by (auto simp: ap_inv_def)
  from argpartition_loop_correct[OF this] show ?thesis
    by (simp add: argpartition_def ap_post_def K_def)
qed


definition S1_score :: "real list" where
  "S1_score = [9 / 10, 1 / 10, 1 / 2, 7 / 10, 1 / 5]"

lemma S1_result: "argpartition [0, 1, 2, 3, 4] S1_score 2 5 = Some [0, 3, 2, 4, 1]"
  by code_simp


theorem argpartition_largest_first_witness:
  "0 \<le> (5::int) \<and> (5::int) \<le> int (length [0, 1, 2, 3, 4 :: int]) \<and>
   argpartition [0, 1, 2, 3, 4] S1_score 2 5 = Some [0, 3, 2, 4, 1] \<and>
   S1_score ! nat ([0, 3, 2, 4, 1] ! nat 2) \<le> S1_score ! nat ([0, 3, 2, 4, 1] ! nat 1)"
proof -
  have a: "0 \<le> (5::int)" "(5::int) \<le> int (length [0, 1, 2, 3, 4 :: int])" by simp_all
  have b: "\<forall>x \<in> set (take (nat 5) [0, 1, 2, 3, 4 :: int]). 0 \<le> x \<and> x < int (length S1_score)"
    by (simp add: S1_score_def)
  from argpartition_largest_first [OF a b, of 2] S1_result
  have "\<forall>i j. 0 \<le> i \<and> i < 2 \<and> 2 \<le> j \<and> j < 5 \<longrightarrow>
           S1_score ! nat ([0, 3, 2, 4, 1] ! nat j) \<le> S1_score ! nat ([0, 3, 2, 4, 1] ! nat i)"
    by auto
  then have "S1_score ! nat ([0, 3, 2, 4, 1] ! nat 2) \<le> S1_score ! nat ([0, 3, 2, 4, 1] ! nat 1)"
    by (elim allE[of _ 1] allE[of _ 2]) simp
  with a S1_result show ?thesis by simp
qed


text \<open>
  The claim as the specification words it (the \<open>k\<close> smallest scores come first) fails
  on scenario S1: the first two entries of the result are 0 and 3, the indices of the
  two largest scores \<open>9 / 10\<close> and \<open>7 / 10\<close>, not 1 and 4, and the score at position
  0 is above the score at position 2.
\<close>

theorem argpartition_smallest_counterexample:
  "argpartition [0, 1, 2, 3, 4] S1_score 2 5 = Some [0, 3, 2, 4, 1] \<and>
   set (take 2 [0, 3, 2, 4, 1 :: int]) \<noteq> {1, 4} \<and>
   \<not> S1_score ! nat ([0, 3, 2, 4, 1] ! 0) \<le> S1_score ! nat ([0, 3, 2, 4, 1] ! 2)"
proof -
  have "(0::int) \<in> set (take 2 [0, 3, 2, 4, 1 :: int])" by (simp add: numeral_2_eq_2)
  moreover have "(0::int) \<notin> {1, 4}" by simp
  ultimately have "set (take 2 [0, 3, 2, 4, 1 :: int]) \<noteq> {1, 4}" by metis
  moreover have "\<not> S1_score ! nat ([0, 3, 2, 4, 1] ! 0) \<le> S1_score ! nat ([0, 3, 2, 4, 1] ! 2)"
    by (simp add: S1_score_def)
  ultimately show ?thesis using S1_result by simp
qed

definition example_similar :: "real list" where
  "example_similar = [1, 3 / 5, 0, 4 / 5,
                      3 / 5, 1, 4 / 5, 24 / 25,
                      0, 4 / 5, 1, 3 / 5,
                      4 / 5, 24 / 25, 3 / 5, 1]"

lemma example_partition_row0:
  "argpartition [0..3] [1, 3 / 5, 0, 4 / 5 :: real] 3 4 = Some [0, 3, 1, 2]"
  by code_simp

text \<open>
  Claim C2 fails on the code. The four unit vectors \<open>(1, 0)\<close>, \<open>(3/5, 4/5)\<close>,
  \<open>(0, 1)\<close>, \<open>(4/5, 3/5)\<close> have the similarity matrix \<open>example_similar\<close>. With
  \<open>n = 2\<close> and one batch of four rows, the partition of row 0 is \<open>[0, 3, 1, 2]\<close>:
  the token itself is first. The emission loop sets \<^verbatim>\<open>offset = -1\<close> there and then
  still writes the edge of that position, so token 0 writes the three slots
  \<open>-1, 0, 1\<close>, the first of them its own edge \<open>(0, 0, 1)\<close> in front of the array.
  In the same way the tokens 1, 2 and 3 write their own edges into the last slot of the
  token before them: after the batch, slot 1 of token 0 holds \<open>(1, 1, 1)\<close> and slot 5 of
  token 2 holds \<open>(3, 3, 1)\<close>.
\<close>

theorem calculate_edges_emission_defect:
  "map_option (\<lambda>e. map e [- 1, 0, 1, 2])
     (emit Map.empty [0, 3, 1, 2] [1, 3 / 5, 0, 4 / 5 :: real] 2 0 [0..2] 0) =
     Some [Some \<lparr> from_index = 0, to_index = 0, weight = 1 \<rparr>,
           Some \<lparr> from_index = 0, to_index = 3, weight = 4 / 5 \<rparr>,
           Some \<lparr> from_index = 0, to_index = 1, weight = 3 / 5 \<rparr>,
           None] \<and>
   map_option (\<lambda>e. map e [- 1, 0, 1, 2, 3, 4, 5, 6, 7, 8])
     (calculate_edges 0 example_similar Map.empty 4 2 4) =
     Some [Some \<lparr> from_index = 0, to_index = 0, weight = 1 \<rparr>,
           Some \<lparr> from_index = 0, to_index = 3, weight = 4 / 5 \<rparr>,
           Some \<lparr> from_index = 1, to_index = 1, weight = 1 \<rparr>,
           Some \<lparr> from_index = 1, to_index = 3, weight = 24 / 25 \<rparr>,
           Some \<lparr> from_index = 2, to_index = 2, weight = 1 \<rparr>,
           Some \<lparr> from_index = 2, to_index = 1, weight = 4 / 5 \<rparr>,
           Some \<lparr> from_index = 3, to_index = 3, weight = 1 \<rparr>,
           Some \<lparr> from_index = 3, to_index = 1, weight = 24 / 25 \<rparr>,
           Some \<lparr> from_index = 3, to_index = 0, weight = 4 / 5 \<rparr>,
           None]"
  by code_simp

end
